theory Spec2Isabelle
  imports Main "HOL-Library.Sublist"
begin

section \<open>quick\_verify.py: parallel dump of every table to /dev/null\<close>

text \<open>
  The script starts a pool of worker processes, validates the schema of each database,
  puts one job per table on a shared queue, and then waits for the queue to drain while
  checking that the workers are alive. The model below is an interleaving semantics: the
  main process (the supervisor), the feeder thread of the queue and every worker are
  sequential programs whose atomic actions are chosen one at a time by a schedule. The file
  system, the catalog queries and the shell are parameters of the model (\<open>env\<close>).

  Two library components are modelled by their contract. \<open>multiprocessing.Queue\<close> is a
  buffer in the process that puts, a pipe, and a feeder thread between the two: \<open>put\<close>
  appends the object to the buffer and returns; the feeder thread takes the oldest object of
  the buffer and writes it to the pipe; \<open>get\<close> reads the oldest object of the pipe and blocks
  while the pipe is empty; \<open>empty\<close> polls the pipe and does not look at the buffer. The
  queue is created without a size, and \<open>put\<close> never blocks. The \<open>logging\<close> module is a list
  of records; only the calls at level WARNING and ERROR are kept, the INFO progress messages
  are left out.
\<close>

subsection \<open>Strings: \<open>os.path.join\<close>, \<open>str.format\<close>, \<open>str.strip\<close>, \<open>str.find\<close>\<close>

definition path_join :: "string \<Rightarrow> string \<Rightarrow> string" where
  \<comment> \<open>\<open>posixpath.join(a, b)\<close>\<close>
  "path_join p b =
     (if take 1 b = ''/'' then b
      else if p = [] \<or> last p = CHR ''/'' then p @ b
      else p @ ''/'' @ b)"

definition digit :: "nat \<Rightarrow> char" where
  "digit d = char_of (48 + d)"

function str_nat :: "nat \<Rightarrow> string" where
  "str_nat n = (if n < 10 then [digit n] else str_nat (n div 10) @ [digit (n mod 10)])"
  by pat_completeness auto
termination
  by (relation "measure (\<lambda>n. n)") auto

declare str_nat.simps [simp del]

definition str_int :: "int \<Rightarrow> string" where
  \<comment> \<open>how \<open>format\<close> prints an integer\<close>
  "str_int i = (if i < 0 then CHR ''-'' # str_nat (nat (- i)) else str_nat (nat i))"

definition dquote :: string where
  "dquote = [CHR 0x22]"

definition is_space :: "char \<Rightarrow> bool" where
  \<comment> \<open>the characters \<open>str.strip()\<close> removes: space, tab, newline, vertical tab, form feed,
      carriage return\<close>
  "is_space c = (c = CHR '' '' \<or> c = CHR 0x09 \<or> c = CHR 0x0A \<or> c = CHR 0x0B
                 \<or> c = CHR 0x0C \<or> c = CHR 0x0D)"

definition strip :: "string \<Rightarrow> string" where
  "strip s = rev (dropWhile is_space (rev (dropWhile is_space s)))"

fun find_from :: "string \<Rightarrow> string \<Rightarrow> nat \<Rightarrow> int" where
  "find_from [] sub i = (if sub = [] then int i else - 1)"
| "find_from (c # cs) sub i =
     (if take (length sub) (c # cs) = sub then int i else find_from cs sub (Suc i))"

definition str_find :: "string \<Rightarrow> string \<Rightarrow> int" where
  \<comment> \<open>\<open>s.find(sub)\<close>: the lowest index where \<open>sub\<close> starts in \<open>s\<close>, or \<open>-1\<close>\<close>
  "str_find s sub = find_from s sub 0"

definition contains :: "string \<Rightarrow> string \<Rightarrow> bool" where
  \<comment> \<open>\<open>sub\<close> occurs in \<open>s\<close> as a contiguous substring\<close>
  "contains s sub = (\<exists>ps ss. s = ps @ sub @ ss)"

definition no_matching_tables :: string where
  "no_matching_tables = ''No matching tables were found''"

subsection \<open>Arguments, environment, log\<close>

record args =
  bindir :: string
  host :: string
  port :: int
  username :: string
  jobs :: int
  dbname :: "string option"
  quiet :: bool

datatype query_error = QueryError

record env =
  path_exists :: "string \<Rightarrow> bool"
    \<comment> \<open>\<open>os.path.exists\<close>\<close>
  list_databases :: "query_error + string list"
    \<comment> \<open>\<open>executeOnDB\<close> of the query on \<open>pg_database\<close>, the column \<open>datname\<close> of its rows\<close>
  list_tables :: "string \<Rightarrow> query_error + string list"
    \<comment> \<open>\<open>executeOnDB\<close> of the query on \<open>pg_class\<close> in a database, the column \<open>tbl\<close>\<close>
  shell :: "string \<Rightarrow> int \<times> string"
    \<comment> \<open>running a command line: its exit code and what it wrote to stdout and stderr\<close>

datatype level = WARNING | ERROR

datatype message =
    ErrorExecuting string
  | CommandOutput string
  | TableNotFound string string
  | FailedToDump string string
  | NotAllWorkersAlive

type_synonym logrec = "level \<times> message"

type_synonym job = "string \<times> string"
  \<comment> \<open>\<open>(dbname, tbl)\<close>\<close>

subsection \<open>\<open>shell_exec_with_output\<close>\<close>

definition shell_exec_with_output :: "env \<Rightarrow> string \<Rightarrow> int \<Rightarrow> (int \<times> string) \<times> logrec list" where
  "shell_exec_with_output e commands ok_code =
     (let exitcode = fst (shell e commands);
          output = strip (snd (shell e commands))
      in ((exitcode, output),
          if exitcode \<noteq> ok_code
          then [(ERROR, ErrorExecuting commands), (ERROR, CommandOutput output)]
          else []))"

subsection \<open>The worker: one pass of the loop of \<open>workerProcess\<close>\<close>

definition dump_cmd :: "args \<Rightarrow> string \<Rightarrow> string \<Rightarrow> string" where
  "dump_cmd a tbl db =
     path_join (bindir a) ''pg_dump'' @ '' -h '' @ host a @ '' -p '' @ str_int (port a)
     @ '' -U '' @ dquote @ username a @ dquote @ '' -t '' @ tbl @ '' '' @ dquote @ db @ dquote
     @ '' >/dev/null''"

datatype flow = Continue | Exit int

definition dump_table :: "env \<Rightarrow> args \<Rightarrow> job \<Rightarrow> flow \<times> logrec list" where
  \<comment> \<open>the body of the loop after \<open>queue.get()\<close> has returned \<open>(db, tbl)\<close>\<close>
  "dump_table e a j =
     (case j of (db, tbl) \<Rightarrow>
        (case shell_exec_with_output e (dump_cmd a tbl db) 0 of
           ((retcode, output), lg) \<Rightarrow>
             if retcode \<noteq> 0 then
               if str_find output no_matching_tables \<ge> 0
               then (Continue, lg @ [(WARNING, TableNotFound tbl db)])
               else (Exit 1, lg @ [(ERROR, FailedToDump tbl db)])
             else (Continue, lg)))"

subsection \<open>The functions called by \<open>main\<close>\<close>

datatype fatal =
    InvalidBindir
  | QueryFailed
  | DbNotFound string
  | SchemaVerifyFailed string
  | NoTablesFound
  | WorkerNotAlive

datatype worker = Idle | Busy job | Dead
  \<comment> \<open>\<open>Idle\<close>: in \<open>queue.get()\<close>; \<open>Busy j\<close>: \<open>get\<close> has returned \<open>j\<close>, the dump is running;
      \<open>Dead\<close>: the process has ended\<close>

definition is_alive :: "worker \<Rightarrow> bool" where
  "is_alive w = (w \<noteq> Dead)"

fun allWorkersAlive :: "worker list \<Rightarrow> bool" where
  "allWorkersAlive [] = True"
| "allWorkersAlive (w # ws) = (if \<not> is_alive w then False else allWorkersAlive ws)"

definition range_py :: "int \<Rightarrow> int list" where
  "range_py n = map int [0..<nat n]"

definition launchWorkers :: "args \<Rightarrow> worker list \<Rightarrow> worker list" where
  \<comment> \<open>worker \<open>i\<close> is the element at index \<open>i\<close> of the list\<close>
  "launchWorkers a ws = fold (\<lambda>i ws'. ws' @ [Idle]) (range_py (jobs a)) ws"

definition schema_cmd :: "args \<Rightarrow> string \<Rightarrow> string" where
  "schema_cmd a db =
     path_join (bindir a) ''pg_dump'' @ '' -h '' @ host a @ '' -p '' @ str_int (port a)
     @ '' -U '' @ dquote @ username a @ dquote @ '' --schema-only '' @ dquote @ db @ dquote
     @ '' >/dev/null''"

definition verifySchema :: "env \<Rightarrow> args \<Rightarrow> string \<Rightarrow> (fatal + unit) \<times> logrec list" where
  "verifySchema e a db =
     (case shell_exec_with_output e (schema_cmd a db) 0 of
        ((retcode, output), lg) \<Rightarrow>
          (if retcode \<noteq> 0 then Inl (SchemaVerifyFailed db) else Inr (), lg))"

definition check_bindir :: "env \<Rightarrow> args \<Rightarrow> fatal + unit" where
  "check_bindir e a =
     (if \<not> path_exists e (path_join (bindir a) ''pg_dumpall'') then Inl InvalidBindir
      else Inr ())"

definition select_dbs :: "args \<Rightarrow> string list \<Rightarrow> fatal + string list" where
  \<comment> \<open>\<open>if args.dbname:\<close> is false for \<open>None\<close> and for the empty string\<close>
  "select_dbs a dbs =
     (case dbname a of
        None \<Rightarrow> Inr dbs
      | Some d \<Rightarrow>
          if d \<noteq> [] then (if d \<notin> set dbs then Inl (DbNotFound d) else Inr [d])
          else Inr dbs)"

definition startup :: "env \<Rightarrow> args \<Rightarrow> fatal + string list" where
  \<comment> \<open>\<open>main\<close> up to the call of \<open>launchWorkers\<close>\<close>
  "startup e a =
     (case check_bindir e a of
        Inl f \<Rightarrow> Inl f
      | Inr _ \<Rightarrow>
          (case list_databases e of
             Inl _ \<Rightarrow> Inl QueryFailed
           | Inr dbs \<Rightarrow> select_dbs a dbs))"

subsection \<open>The run: supervisor and workers, interleaved\<close>

datatype pc =
    Start
  | ForDbs "string list"
  | AddTables string "string list"
  | Put string nat "string list" "string list"
  | Drain int
  | Poll int
  | Done
  | Fatal fatal

text \<open>
  The program counter of \<open>main\<close>:
  \<^item> \<open>Start\<close>: before the first statement;
  \<^item> \<open>ForDbs dbs\<close>: at the head of \<open>for db in dbs\<close>, with \<open>dbs\<close> still to visit;
  \<^item> \<open>AddTables db rest\<close>: \<open>verifySchema(db)\<close> has returned, \<open>addTablesFromDB(db)\<close> is next;
  \<^item> \<open>Put db n ts rest\<close>: inside \<open>addTablesFromDB(db)\<close>, at the head of \<open>for t in tables\<close>,
    with \<open>n = len(tables)\<close> and \<open>ts\<close> still to put;
  \<^item> \<open>Drain i\<close>: at the test of \<open>while not queue.empty()\<close>, which polls the pipe;
  \<^item> \<open>Poll i\<close>: inside that loop, before \<open>allWorkersAlive()\<close>;
  \<^item> \<open>Done\<close>: \<open>main\<close> has returned (exit code 0);
  \<^item> \<open>Fatal f\<close>: \<open>main\<close> has raised or called \<open>exit(1)\<close> (exit code 1).
\<close>

record state =
  pc :: pc
  tables_added :: int
  queue :: "job list"
    \<comment> \<open>the pipe of \<open>queue\<close>: what \<open>queue.get\<close> reads and \<open>queue.empty\<close> polls\<close>
  buffer :: "job list"
    \<comment> \<open>the buffer of \<open>queue\<close>: the objects put and not yet written to the pipe\<close>
  workers :: "worker list"
  logged :: "logrec list"
  schema_runs :: "(string \<times> bool) list"
    \<comment> \<open>history: each call of \<open>verifySchema\<close> and whether it returned\<close>
  enqueued :: "job list"
    \<comment> \<open>history: each \<open>queue.put\<close>\<close>
  dequeued :: "(nat \<times> job) list"
    \<comment> \<open>history: each \<open>queue.get\<close> that returned, with the worker\<close>
  dumps :: "(nat \<times> job) list"
    \<comment> \<open>history: each table dump that ran to its end, with the worker\<close>

definition init :: state where
  "init = \<lparr>pc = Start, tables_added = 0, queue = [], buffer = [], workers = [], logged = [],
           schema_runs = [], enqueued = [], dequeued = [], dumps = []\<rparr>"

fun exit_code :: "pc \<Rightarrow> int option" where
  "exit_code Done = Some 0"
| "exit_code (Fatal f) = Some 1"
| "exit_code _ = None"

definition halted :: "pc \<Rightarrow> bool" where
  "halted p = (exit_code p \<noteq> None)"

fun main_step :: "env \<Rightarrow> args \<Rightarrow> pc \<Rightarrow> state \<Rightarrow> state" where
  "main_step e a Start s =
     (case startup e a of
        Inl f \<Rightarrow> s\<lparr>pc := Fatal f\<rparr>
      | Inr dbs \<Rightarrow> s\<lparr>pc := ForDbs dbs, workers := launchWorkers a (workers s),
                     tables_added := 0\<rparr>)"
| "main_step e a (ForDbs (db # rest)) s =
     (case verifySchema e a db of
        (Inl f, lg) \<Rightarrow> s\<lparr>pc := Fatal f, logged := logged s @ lg,
                         schema_runs := schema_runs s @ [(db, False)]\<rparr>
      | (Inr _, lg) \<Rightarrow> s\<lparr>pc := AddTables db rest, logged := logged s @ lg,
                         schema_runs := schema_runs s @ [(db, True)]\<rparr>)"
| "main_step e a (AddTables db rest) s =
     (case list_tables e db of
        Inl _ \<Rightarrow> s\<lparr>pc := Fatal QueryFailed\<rparr>
      | Inr tables \<Rightarrow> s\<lparr>pc := Put db (length tables) tables rest\<rparr>)"
| "main_step e a (Put db n (t # ts) rest) s =
     s\<lparr>pc := Put db n ts rest, buffer := buffer s @ [(db, t)],
       enqueued := enqueued s @ [(db, t)]\<rparr>"
| "main_step e a (Put db n [] rest) s =
     s\<lparr>pc := ForDbs rest, tables_added := tables_added s + int n\<rparr>"
| "main_step e a (ForDbs []) s =
     (if tables_added s = 0 then s\<lparr>pc := Fatal NoTablesFound\<rparr> else s\<lparr>pc := Drain 0\<rparr>)"
| "main_step e a (Drain i) s =
     (if queue s \<noteq> [] then s\<lparr>pc := Poll i\<rparr> else s\<lparr>pc := Done\<rparr>)"
| "main_step e a (Poll i) s =
     (if \<not> allWorkersAlive (workers s)
      then s\<lparr>pc := Fatal WorkerNotAlive,
             logged := logged s @ [(ERROR, NotAllWorkersAlive)]\<rparr>
      else s\<lparr>pc := Drain (i + 5)\<rparr>)"
| "main_step e a Done s = s"
| "main_step e a (Fatal f) s = s"

definition worker_step :: "env \<Rightarrow> args \<Rightarrow> nat \<Rightarrow> state \<Rightarrow> state" where
  "worker_step e a w s =
     (if w < length (workers s) then
        (case workers s ! w of
           Idle \<Rightarrow>
             (case queue s of
                [] \<Rightarrow> s
              | j # q \<Rightarrow> s\<lparr>queue := q, workers := (workers s)[w := Busy j],
                           dequeued := dequeued s @ [(w, j)]\<rparr>)
         | Busy j \<Rightarrow>
             (case dump_table e a j of
                (Continue, lg) \<Rightarrow> s\<lparr>workers := (workers s)[w := Idle],
                                    logged := logged s @ lg, dumps := dumps s @ [(w, j)]\<rparr>
              | (Exit c, lg) \<Rightarrow> s\<lparr>workers := (workers s)[w := Dead],
                                  logged := logged s @ lg, dumps := dumps s @ [(w, j)]\<rparr>)
         | Dead \<Rightarrow> s)
      else s)"

definition kill_step :: "nat \<Rightarrow> state \<Rightarrow> state" where
  \<comment> \<open>a worker process ends for a reason outside the program\<close>
  "kill_step w s = (if w < length (workers s) then s\<lparr>workers := (workers s)[w := Dead]\<rparr> else s)"

definition feeder_step :: "state \<Rightarrow> state" where
  \<comment> \<open>the feeder thread of \<open>queue\<close> writes the oldest buffered object to the pipe\<close>
  "feeder_step s =
     (case buffer s of
        [] \<Rightarrow> s
      | j # b \<Rightarrow> s\<lparr>buffer := b, queue := queue s @ [j]\<rparr>)"

datatype event = Supervisor | Feeder | Worker nat | Kill nat

definition step :: "env \<Rightarrow> args \<Rightarrow> event \<Rightarrow> state \<Rightarrow> state" where
  \<comment> \<open>when the main process has ended, its daemon workers are terminated: nothing moves\<close>
  "step e a ev s =
     (if halted (pc s) then s
      else (case ev of
              Supervisor \<Rightarrow> main_step e a (pc s) s
            | Feeder \<Rightarrow> feeder_step s
            | Worker w \<Rightarrow> worker_step e a w s
            | Kill w \<Rightarrow> kill_step w s))"

fun exec :: "env \<Rightarrow> args \<Rightarrow> state \<Rightarrow> event list \<Rightarrow> state" where
  "exec e a s [] = s"
| "exec e a s (ev # evs) = exec e a (step e a ev s) evs"

definition run :: "env \<Rightarrow> args \<Rightarrow> event list \<Rightarrow> state" where
  "run e a evs = exec e a init evs"

subsection \<open>The outcome of a dump in the words of the specification\<close>

datatype outcome = Success | SoftFailure | HardFailure

definition classify :: "int \<Rightarrow> string \<Rightarrow> outcome" where
  "classify exit_status combined_output =
     (if exit_status = 0 then Success
      else if contains combined_output no_matching_tables then SoftFailure
      else HardFailure)"

subsection \<open>Example inputs\<close>

definition example_args :: "int \<Rightarrow> string option \<Rightarrow> args" where
  "example_args j d = \<lparr>bindir = ''/usr/bin'', host = ''localhost'', port = 5432,
     username = ''postgres'', jobs = j, dbname = d, quiet = False\<rparr>"

definition example_env :: "(string \<Rightarrow> int \<times> string) \<Rightarrow> env" where
  "example_env sh = \<lparr>path_exists = (\<lambda>p. True), list_databases = Inr [''db1'', ''db2''],
     list_tables = (\<lambda>d. if d = ''db1'' then Inr [''public.a'', ''public.b'']
                         else if d = ''db2'' then Inr [''public.c''] else Inl QueryError),
     shell = sh\<rparr>"

definition dumping :: state where
  "dumping = init\<lparr>pc := Drain 0, workers := [Busy (''db1'', ''public.a'')]\<rparr>"

definition ok_shell :: "string \<Rightarrow> int \<times> string" where
  "ok_shell c = (0, '''')"

definition fails_on :: "string \<Rightarrow> string \<Rightarrow> int \<times> string" where
  \<comment> \<open>a shell in which exactly the command \<open>cmd\<close> fails, for a reason other than a missing table\<close>
  "fails_on cmd c =
     (if c = cmd then (1, ''pg_dump: error: invalid page in block 0'') else (0, ''''))"

subsection \<open>Notions used in the statements\<close>

definition selected :: "env \<Rightarrow> args \<Rightarrow> string list" where
  \<comment> \<open>the databases \<open>main\<close> loops over, if it gets as far as the loop\<close>
  "selected e a = (case startup e a of Inl _ \<Rightarrow> [] | Inr dbs \<Rightarrow> dbs)"

definition tables_of :: "env \<Rightarrow> string \<Rightarrow> string list" where
  "tables_of e db = (case list_tables e db of Inl _ \<Rightarrow> [] | Inr ts \<Rightarrow> ts)"

definition jobs_of :: "env \<Rightarrow> string \<Rightarrow> job list" where
  "jobs_of e db = map (Pair db) (tables_of e db)"

definition planned :: "env \<Rightarrow> string list \<Rightarrow> job list" where
  \<comment> \<open>the jobs of the databases \<open>dbs\<close>, in the order in which \<open>main\<close> puts them on the queue\<close>
  "planned e dbs = concat (map (jobs_of e) dbs)"

definition schema_ok :: "env \<Rightarrow> args \<Rightarrow> string \<Rightarrow> bool" where
  "schema_ok e a db = (fst (shell e (schema_cmd a db)) = 0)"

definition hard_failure :: "env \<Rightarrow> args \<Rightarrow> job \<Rightarrow> bool" where
  "hard_failure e a j =
     (case j of (db, tbl) \<Rightarrow>
        classify (fst (shell e (dump_cmd a tbl db))) (snd (shell e (dump_cmd a tbl db)))
          = HardFailure)"

subsection \<open>Invariants\<close>

definition no_workers_inv :: "state \<Rightarrow> bool" where
  "no_workers_inv s =
     (workers s = [] \<and> dequeued s = [] \<and> queue s @ buffer s = enqueued s
      \<and> pc s \<noteq> Fatal WorkerNotAlive)"

definition queue_inv :: "state \<Rightarrow> bool" where
  \<comment> \<open>the pipe and the buffer hold what was put and not yet taken, in order\<close>
  "queue_inv s = (enqueued s = map snd (dequeued s) @ queue s @ buffer s)"

definition dump_inv :: "state \<Rightarrow> bool" where
  \<comment> \<open>a job has been dumped, or is being dumped, at most as often as it was taken\<close>
  "dump_inv s =
     (\<forall>j. count_list (map snd (dumps s)) j + count_list (workers s) (Busy j)
            \<le> count_list (map snd (dequeued s)) j)"

fun loading_at :: "env \<Rightarrow> string list \<Rightarrow> state \<Rightarrow> pc \<Rightarrow> bool" where
  "loading_at e dbs s Start = (enqueued s = [])"
| "loading_at e dbs s (ForDbs rest) =
     (enqueued s @ planned e rest = planned e dbs
      \<and> tables_added s = int (length (enqueued s)))"
| "loading_at e dbs s (AddTables db rest) =
     (enqueued s @ planned e (db # rest) = planned e dbs
      \<and> tables_added s = int (length (enqueued s)))"
| "loading_at e dbs s (Put db n ts rest) =
     (enqueued s @ map (Pair db) ts @ planned e rest = planned e dbs
      \<and> tables_added s + int n = int (length (enqueued s) + length ts))"
| "loading_at e dbs s (Fatal f) = prefix (enqueued s) (planned e dbs)"
| "loading_at e dbs s _ = (enqueued s = planned e dbs \<and> enqueued s \<noteq> [])"

definition loading_inv :: "env \<Rightarrow> args \<Rightarrow> state \<Rightarrow> bool" where
  "loading_inv e a s = loading_at e (selected e a) s (pc s)"

fun pc_dbs :: "pc \<Rightarrow> string set" where
  \<comment> \<open>the databases the supervisor is working on or has still to visit\<close>
  "pc_dbs (ForDbs rest) = set rest"
| "pc_dbs (AddTables db rest) = insert db (set rest)"
| "pc_dbs (Put db n ts rest) = insert db (set rest)"
| "pc_dbs _ = {}"

fun fatal_cause :: "env \<Rightarrow> args \<Rightarrow> state \<Rightarrow> fatal \<Rightarrow> bool" where
  "fatal_cause e a s InvalidBindir = (startup e a = Inl InvalidBindir)"
| "fatal_cause e a s (DbNotFound d) = (startup e a = Inl (DbNotFound d))"
| "fatal_cause e a s QueryFailed =
     (startup e a = Inl QueryFailed \<or> (\<exists>db\<in>set (selected e a). isl (list_tables e db)))"
| "fatal_cause e a s (SchemaVerifyFailed db) = (db \<in> set (selected e a) \<and> \<not> schema_ok e a db)"
| "fatal_cause e a s NoTablesFound = (planned e (selected e a) = [])"
| "fatal_cause e a s WorkerNotAlive =
     (\<not> allWorkersAlive (workers s) \<and> enqueued s = planned e (selected e a)
      \<and> enqueued s \<noteq> [])"

definition cause_inv :: "env \<Rightarrow> args \<Rightarrow> state \<Rightarrow> bool" where
  \<comment> \<open>a run that has ended has a reason to end\<close>
  "cause_inv e a s =
     (pc_dbs (pc s) \<subseteq> set (selected e a)
      \<and> (\<forall>f. pc s = Fatal f \<longrightarrow> fatal_cause e a s f)
      \<and> (pc s = Done \<longrightarrow> queue s = [])
      \<and> (pc s = Start \<longrightarrow> s = init))"

fun loop_steps :: "env \<Rightarrow> string list \<Rightarrow> nat" where
  "loop_steps e [] = 1"
| "loop_steps e (db # rest) = 3 + length (tables_of e db) + loop_steps e rest"

fun remaining :: "env \<Rightarrow> args \<Rightarrow> pc \<Rightarrow> nat" where
  \<comment> \<open>a bound on the actions of the supervisor before it waits for the queue or ends\<close>
  "remaining e a Start = 1 + loop_steps e (selected e a)"
| "remaining e a (ForDbs rest) = loop_steps e rest"
| "remaining e a (AddTables db rest) = 2 + length (tables_of e db) + loop_steps e rest"
| "remaining e a (Put db n ts rest) = 1 + length ts + loop_steps e rest"
| "remaining e a _ = 0"

definition loading_bound :: "env \<Rightarrow> args \<Rightarrow> nat" where
  "loading_bound e a = remaining e a Start"

fun draining :: "pc \<Rightarrow> bool" where
  "draining (Drain i) = True"
| "draining (Poll i) = True"
| "draining Done = True"
| "draining _ = False"

definition tableless_env :: env where
  \<comment> \<open>a server whose only database has no table\<close>
  "tableless_env = \<lparr>path_exists = (\<lambda>p. True), list_databases = Inr [''db1''],
     list_tables = (\<lambda>d. Inr []), shell = ok_shell\<rparr>"

fun pc_db :: "pc \<Rightarrow> string set" where
  \<comment> \<open>the database whose tables the supervisor is listing or putting\<close>
  "pc_db (AddTables db rest) = {db}"
| "pc_db (Put db n ts rest) = {db}"
| "pc_db _ = {}"

definition schema_inv :: "env \<Rightarrow> args \<Rightarrow> state \<Rightarrow> bool" where
  \<comment> \<open>the history of schema validations is truthful, and a database whose tables are on the
      queue, or are being put there, has passed its validation\<close>
  "schema_inv e a s =
     ((\<forall>(db, ok)\<in>set (schema_runs s). ok = schema_ok e a db)
      \<and> (\<forall>(db, t)\<in>set (enqueued s). (db, True) \<in> set (schema_runs s))
      \<and> (\<forall>db\<in>pc_db (pc s). (db, True) \<in> set (schema_runs s)))"

fun blocked_at :: "env \<Rightarrow> string list \<Rightarrow> string list \<Rightarrow> state \<Rightarrow> pc \<Rightarrow> bool" where
  \<comment> \<open>the supervisor has not passed the databases \<open>blk\<close>, which come after \<open>pre\<close>\<close>
  "blocked_at e pre blk s Start = True"
| "blocked_at e pre blk s (ForDbs rest) = suffix blk rest"
| "blocked_at e pre blk s (AddTables db rest) = suffix blk rest"
| "blocked_at e pre blk s (Put db n ts rest) = suffix blk rest"
| "blocked_at e pre blk s (Fatal f) = prefix (enqueued s) (planned e pre)"
| "blocked_at e pre blk s _ = False"

definition blocked_inv :: "env \<Rightarrow> string list \<Rightarrow> string list \<Rightarrow> state \<Rightarrow> bool" where
  "blocked_inv e pre blk s = blocked_at e pre blk s (pc s)"

definition schema_fails_on :: "string \<Rightarrow> args \<Rightarrow> string \<Rightarrow> int \<times> string" where
  \<comment> \<open>a shell in which exactly the schema-only dump of database \<open>db\<close> fails\<close>
  "schema_fails_on db a = fails_on (schema_cmd a db)"


section \<open>Strings\<close>


lemma contains_sublist: "contains s sub = sublist sub s"
  by (simp add: contains_def sublist_def)

lemma take_eq_prefix: "(take (length sub) s = sub) = prefix sub s"
  by (metis append_eq_conv_conj prefix_def)

lemma find_from_nonneg: "(0 \<le> find_from s sub i) = sublist sub s"
proof (induction s arbitrary: i)
  case Nil
  show ?case by simp
next
  case (Cons c cs)
  show ?case
    using Cons.IH [of "Suc i"]
    by (simp add: sublist_Cons_right take_eq_prefix del: take_Suc_Cons)
qed

lemma str_find_contains: "(0 \<le> str_find s sub) = contains s sub"
  by (simp add: str_find_def find_from_nonneg contains_sublist)

lemma strip_sublist: "sublist (strip s) s"
proof -
  let ?d = "dropWhile is_space s"
  have "rev ?d = takeWhile is_space (rev ?d) @ dropWhile is_space (rev ?d)"
    by simp
  then have "?d = strip s @ rev (takeWhile is_space (rev ?d))"
    unfolding strip_def by (metis rev_append rev_rev_ident)
  moreover have "s = takeWhile is_space s @ ?d"
    by simp
  ultimately have "s = takeWhile is_space s @ strip s @ rev (takeWhile is_space (rev ?d))"
    by simp
  then show ?thesis
    unfolding sublist_def by blast
qed

lemma strip_keeps:
  assumes "\<not> is_space x" and "\<not> is_space z"
  shows "strip (ps @ x # m @ z # ss) = dropWhile is_space ps @ x # m @ z # rev (dropWhile is_space (rev ss))"
proof -
  have "dropWhile is_space (ps @ x # m @ z # ss) = dropWhile is_space ps @ x # m @ z # ss"
    using assms(1) by (rule dropWhile_append3)
  moreover have "dropWhile is_space (rev ss @ z # rev m @ x # rev (dropWhile is_space ps))
      = dropWhile is_space (rev ss) @ z # rev m @ x # rev (dropWhile is_space ps)"
    using assms(2) by (rule dropWhile_append3)
  ultimately show ?thesis
    by (simp add: strip_def)
qed

lemma no_matching_tables_ends:
  "no_matching_tables = CHR ''N'' # ''o matching tables were foun'' @ CHR ''d'' # []"
  by (simp add: no_matching_tables_def)

lemma strip_contains: "contains (strip s) no_matching_tables = contains s no_matching_tables"
proof
  assume "contains (strip s) no_matching_tables"
  then obtain ps ss where "strip s = ps @ no_matching_tables @ ss"
    by (auto simp: contains_def)
  moreover obtain ps' ss' where "s = ps' @ strip s @ ss'"
    using strip_sublist [of s] by (auto simp: sublist_def)
  ultimately have "s = (ps' @ ps) @ no_matching_tables @ (ss @ ss')"
    by simp
  then show "contains s no_matching_tables"
    unfolding contains_def by blast
next
  assume "contains s no_matching_tables"
  then obtain ps ss where s: "s = ps @ no_matching_tables @ ss"
    by (auto simp: contains_def)
  have "strip s = dropWhile is_space ps @ no_matching_tables @ rev (dropWhile is_space (rev ss))"
    unfolding s no_matching_tables_ends
    using strip_keeps [of "CHR ''N''" "CHR ''d''" ps "''o matching tables were foun''" ss]
    by (simp add: is_space_def)
  then show "contains (strip s) no_matching_tables"
    unfolding contains_def by blast
qed


lemma strip_Nil: "strip [] = []"
  by (simp add: strip_def)

lemma strip_id:
  assumes "s \<noteq> []" and "\<not> is_space (hd s)" and "\<not> is_space (last s)"
  shows "strip s = s"
proof -
  have "dropWhile is_space s = s"
    using assms(1,2) by (cases s) auto
  moreover have "dropWhile is_space (rev s) = rev s"
    using assms(1,3) by (cases "rev s") (auto simp: last_rev [symmetric])
  ultimately show ?thesis
    by (simp add: strip_def)
qed

lemma invalid_page_is_hard:
  "strip ''pg_dump: error: invalid page in block 0'' = ''pg_dump: error: invalid page in block 0''"
  "\<not> 0 \<le> str_find ''pg_dump: error: invalid page in block 0'' no_matching_tables"
  by (simp_all add: strip_id is_space_def str_find_def no_matching_tables_def)

section \<open>Basic facts about the run\<close>

lemma launchWorkers_replicate: "launchWorkers a ws = ws @ replicate (nat (jobs a)) Idle"
proof -
  have "fold (\<lambda>i ws'. ws' @ [Idle]) is ws = ws @ replicate (length is) Idle" for "is" :: "int list"
    by (induction "is" arbitrary: ws) (simp_all add: replicate_append_same)
  then show ?thesis
    by (simp add: launchWorkers_def range_py_def)
qed

lemma allWorkersAlive_iff: "allWorkersAlive ws = (\<forall>w\<in>set ws. is_alive w)"
  by (induction ws) auto

lemma exec_append: "exec e a s (xs @ ys) = exec e a (exec e a s xs) ys"
  by (induction xs arbitrary: s) auto

lemma exec_halted: "halted (pc s) \<Longrightarrow> exec e a s evs = s"
  by (induction evs) (auto simp: step_def)

lemma exec_invariant:
  assumes "P s" and "\<And>s ev. P s \<Longrightarrow> \<not> halted (pc s) \<Longrightarrow> P (step e a ev s)"
  shows "P (exec e a s evs)"
  using assms(1)
proof (induction evs arbitrary: s)
  case Nil
  then show ?case by simp
next
  case (Cons ev evs)
  have "P (step e a ev s)"
    using Cons.prems assms(2) [of s ev] by (cases "halted (pc s)") (auto simp: step_def)
  then show ?case
    using Cons.IH by simp
qed

section \<open>What each kind of action leaves unchanged\<close>

lemma step_worker_frame:
  "pc (worker_step e a w s) = pc s" "tables_added (worker_step e a w s) = tables_added s"
  "enqueued (worker_step e a w s) = enqueued s" "schema_runs (worker_step e a w s) = schema_runs s"
  "buffer (worker_step e a w s) = buffer s"
  by (auto simp: worker_step_def split: worker.splits list.splits prod.splits flow.splits)

lemma step_kill_frame:
  "pc (kill_step w s) = pc s" "tables_added (kill_step w s) = tables_added s"
  "enqueued (kill_step w s) = enqueued s" "schema_runs (kill_step w s) = schema_runs s"
  "queue (kill_step w s) = queue s" "dequeued (kill_step w s) = dequeued s"
  "dumps (kill_step w s) = dumps s" "logged (kill_step w s) = logged s"
  "buffer (kill_step w s) = buffer s"
  by (auto simp: kill_step_def)

lemma step_feeder_frame:
  "pc (feeder_step s) = pc s" "tables_added (feeder_step s) = tables_added s"
  "enqueued (feeder_step s) = enqueued s" "schema_runs (feeder_step s) = schema_runs s"
  "workers (feeder_step s) = workers s" "dequeued (feeder_step s) = dequeued s"
  "dumps (feeder_step s) = dumps s" "logged (feeder_step s) = logged s"
  "queue (feeder_step s) @ buffer (feeder_step s) = queue s @ buffer s"
  by (auto simp: feeder_step_def split: list.splits)

lemma main_step_frame:
  "dequeued (main_step e a p s) = dequeued s" "dumps (main_step e a p s) = dumps s"
  by (cases "(e, a, p, s)" rule: main_step.cases; simp split: sum.splits prod.splits)+

lemma main_step_workers:
  "p \<noteq> Start \<Longrightarrow> workers (main_step e a p s) = workers s"
  by (cases "(e, a, p, s)" rule: main_step.cases; simp split: sum.splits prod.splits)

lemma startup_fatal:
  assumes "startup e a = Inl f"
  shows "f = InvalidBindir \<or> f = QueryFailed \<or> (\<exists>d. f = DbNotFound d)"
  using assms
  by (auto simp: startup_def check_bindir_def select_dbs_def
      split: sum.splits option.splits if_splits)

section \<open>A run without workers\<close>

lemma no_workers_step:
  assumes "jobs a = 0" and "no_workers_inv s"
  shows "no_workers_inv (step e a ev s)"
proof (cases ev)
  case Supervisor
  show ?thesis
    using assms unfolding Supervisor
    by (cases "(e, a, pc s, s)" rule: main_step.cases)
      (auto simp: no_workers_inv_def step_def launchWorkers_replicate verifySchema_def
        dest: startup_fatal split: sum.splits prod.splits if_splits)
next
  case Feeder
  then show ?thesis
    using assms by (simp add: no_workers_inv_def step_def step_feeder_frame)
next
  case (Worker w)
  then show ?thesis
    using assms by (simp add: no_workers_inv_def step_def worker_step_def)
next
  case (Kill w)
  then show ?thesis
    using assms by (simp add: no_workers_inv_def step_def kill_step_def)
qed

lemma no_workers_run: "jobs a = 0 \<Longrightarrow> no_workers_inv (run e a evs)"
  unfolding run_def
  by (rule exec_invariant [where P = no_workers_inv])
    (simp_all add: no_workers_step, simp add: no_workers_inv_def init_def)

text \<open>
  Claim C10. \<open>allWorkersAlive\<close> is true exactly when every worker of the list is alive, so
  it is true for the empty list. With a worker count of zero \<open>launchWorkers\<close> starts no
  worker; on every schedule the worker list stays empty, the liveness check never fails,
  no job is ever taken, and the pipe and the buffer of the queue hold every job that was put.
\<close>

theorem zero_workers_never_fail_liveness:
  "(allWorkersAlive ws \<longleftrightarrow> (\<forall>w\<in>set ws. is_alive w))
   \<and> allWorkersAlive []
   \<and> (jobs a = 0 \<longrightarrow>
        launchWorkers a [] = []
        \<and> (\<forall>evs. workers (run e a evs) = []
              \<and> allWorkersAlive (workers (run e a evs))
              \<and> pc (run e a evs) \<noteq> Fatal WorkerNotAlive
              \<and> dequeued (run e a evs) = []
              \<and> queue (run e a evs) @ buffer (run e a evs) = enqueued (run e a evs)))"
  using no_workers_run [of a e]
  by (simp add: allWorkersAlive_iff launchWorkers_replicate no_workers_inv_def)

section \<open>The worker's classification of a dump\<close>

lemma dump_table_classify:
  assumes "shell e (dump_cmd a tbl db) = (rc, out)"
  shows "dump_table e a (db, tbl) =
     (case classify rc out of
        Success \<Rightarrow> (Continue, [])
      | SoftFailure \<Rightarrow> (Continue, [(ERROR, ErrorExecuting (dump_cmd a tbl db)),
           (ERROR, CommandOutput (strip out)), (WARNING, TableNotFound tbl db)])
      | HardFailure \<Rightarrow> (Exit 1, [(ERROR, ErrorExecuting (dump_cmd a tbl db)),
           (ERROR, CommandOutput (strip out)), (ERROR, FailedToDump tbl db)]))"
  using assms
  by (simp add: dump_table_def shell_exec_with_output_def Let_def classify_def str_find_contains
      strip_contains)

text \<open>
  Claim C3. A worker that holds a job runs the dump and classifies its result. Exit code 0
  is a success: the worker goes back to the queue and nothing is logged at WARNING or ERROR.
  A non-zero exit code whose output contains ``No matching tables were found'' is a soft
  failure: a warning is logged (after the two records \<open>shell_exec_with_output\<close> writes for
  every non-zero exit code) and the worker goes back to the queue. Any other non-zero exit
  code is a hard failure: an error is logged and the worker ends with \<open>exit(1)\<close>.
\<close>

theorem worker_classifies_outcome:
  assumes "\<not> halted (pc s)" and "w < length (workers s)" and "workers s ! w = Busy (db, tbl)"
    and "shell e (dump_cmd a tbl db) = (rc, out)"
    and "s' = step e a (Worker w) s"
  shows "(classify rc out = Success \<longleftrightarrow> rc = 0)
    \<and> (classify rc out = SoftFailure \<longleftrightarrow> rc \<noteq> 0 \<and> contains out no_matching_tables)
    \<and> (classify rc out = HardFailure \<longleftrightarrow> rc \<noteq> 0 \<and> \<not> contains out no_matching_tables)
    \<and> (classify rc out = Success \<longrightarrow>
          fst (dump_table e a (db, tbl)) = Continue \<and> workers s' ! w = Idle
          \<and> logged s' = logged s)
    \<and> (classify rc out = SoftFailure \<longrightarrow>
          fst (dump_table e a (db, tbl)) = Continue \<and> workers s' ! w = Idle
          \<and> logged s' = logged s @ [(ERROR, ErrorExecuting (dump_cmd a tbl db)),
               (ERROR, CommandOutput (strip out)), (WARNING, TableNotFound tbl db)])
    \<and> (classify rc out = HardFailure \<longrightarrow>
          fst (dump_table e a (db, tbl)) = Exit 1 \<and> workers s' ! w = Dead
          \<and> logged s' = logged s @ [(ERROR, ErrorExecuting (dump_cmd a tbl db)),
               (ERROR, CommandOutput (strip out)), (ERROR, FailedToDump tbl db)])"
  using assms dump_table_classify [OF assms(4)]
  by (cases "classify rc out") (auto simp: step_def worker_step_def classify_def split: if_splits)

theorem worker_classifies_outcome_witness:
  "workers (step (example_env (\<lambda>c. (0, ''''))) (example_args 1 None) (Worker 0) dumping) ! 0 = Idle
   \<and> workers (step (example_env (\<lambda>c. (1, ''pg_dump: error: No matching tables were found'')))
        (example_args 1 None) (Worker 0) dumping) ! 0 = Idle
   \<and> workers (step (example_env (\<lambda>c. (1, ''pg_dump: error: invalid page in block 0'')))
        (example_args 1 None) (Worker 0) dumping) ! 0 = Dead"
proof -
  let ?a = "example_args 1 None"
  have pre: "\<not> halted (pc dumping)" "0 < length (workers dumping)"
    "workers dumping ! 0 = Busy (''db1'', ''public.a'')"
    by (simp_all add: dumping_def halted_def init_def)
  have c1: "classify 0 '''' = Success"
    by (simp add: classify_def)
  have "contains ''pg_dump: error: No matching tables were found'' no_matching_tables"
    unfolding str_find_contains [symmetric]
    by (simp add: str_find_def no_matching_tables_def)
  then have c2: "classify 1 ''pg_dump: error: No matching tables were found'' = SoftFailure"
    by (simp add: classify_def)
  have "\<not> contains ''pg_dump: error: invalid page in block 0'' no_matching_tables"
    unfolding str_find_contains [symmetric]
    by (simp add: str_find_def no_matching_tables_def)
  then have c3: "classify 1 ''pg_dump: error: invalid page in block 0'' = HardFailure"
    by (simp add: classify_def)
  show ?thesis
    using worker_classifies_outcome [OF pre, of "example_env (\<lambda>c. (0, ''''))" ?a 0 "''''", OF _ refl]
      worker_classifies_outcome [OF pre,
        of "example_env (\<lambda>c. (1, ''pg_dump: error: No matching tables were found''))" ?a 1
          "''pg_dump: error: No matching tables were found''", OF _ refl]
      worker_classifies_outcome [OF pre,
        of "example_env (\<lambda>c. (1, ''pg_dump: error: invalid page in block 0''))" ?a 1
          "''pg_dump: error: invalid page in block 0''", OF _ refl]
      c1 c2 c3
    by (simp add: example_env_def)
qed

section \<open>Evaluating runs on the example inputs\<close>

lemma dump_table_fails_on:
  "dump_table (example_env (fails_on cmd)) a (db, tbl) = 
   (if dump_cmd a tbl db = cmd then (Exit 1, [(ERROR, ErrorExecuting cmd), (ERROR, CommandOutput ''pg_dump: error: invalid page in block 0''), (ERROR, FailedToDump tbl db)]) else (Continue, []))"
  by (simp add: dump_table_def shell_exec_with_output_def Let_def example_env_def fails_on_def invalid_page_is_hard strip_Nil)

lemma verifySchema_fails_on:
  "verifySchema (example_env (fails_on cmd)) a db = 
   (if schema_cmd a db = cmd then (Inl (SchemaVerifyFailed db), [(ERROR, ErrorExecuting cmd), (ERROR, CommandOutput ''pg_dump: error: invalid page in block 0'')]) else (Inr (), []))"
  by (simp add: verifySchema_def shell_exec_with_output_def Let_def example_env_def fails_on_def invalid_page_is_hard strip_Nil)

lemma dump_table_ok_shell: "dump_table (example_env ok_shell) a (db, tbl) = (Continue, [])"
  by (simp add: dump_table_def shell_exec_with_output_def Let_def example_env_def ok_shell_def)

lemma verifySchema_ok_shell: "verifySchema (example_env ok_shell) a db = (Inr (), [])"
  by (simp add: verifySchema_def shell_exec_with_output_def Let_def example_env_def ok_shell_def)


lemma example_env_simps:
  "path_exists (example_env sh) p = True"
  "list_databases (example_env sh) = Inr [''db1'', ''db2'']"
  "list_tables (example_env sh) ''db1'' = Inr [''public.a'', ''public.b'']"
  "list_tables (example_env sh) ''db2'' = Inr [''public.c'']"
  "shell (example_env sh) = sh"
  by (simp_all add: example_env_def)

lemma example_args_simps:
  "jobs (example_args j d) = j"
  "dbname (example_args j d) = d"
  "bindir (example_args j d) = ''/usr/bin''"
  by (simp_all add: example_args_def)

lemmas eval_run = run_def init_def step_def halted_def worker_step_def kill_step_def
  feeder_step_def startup_def
  check_bindir_def select_dbs_def launchWorkers_replicate eval_nat_numeral is_alive_def
  dump_table_fails_on verifySchema_fails_on dump_table_ok_shell verifySchema_ok_shell
  example_env_simps example_args_simps

section \<open>Failures the supervisor does not see\<close>

text \<open>
  Claim C1 (not met by the code). One worker, three tables, and the dump of the last table
  fails for a reason other than a missing table. The supervisor puts the three jobs, the
  feeder thread writes them to the pipe, and the supervisor goes once round its loop. The
  worker takes the last job off the queue, logs the failure and ends with \<open>exit(1)\<close>. The
  supervisor then finds the queue empty, leaves its loop without looking at the workers and
  returns: the exit code is 0.
\<close>

theorem hard_failure_after_last_get_exits_0:
  "pc (run (example_env (fails_on (dump_cmd (example_args 1 None) ''public.c'' ''db2''))) (example_args 1 None)
  [Supervisor, Supervisor, Supervisor, Supervisor, Supervisor, Supervisor, Supervisor, Supervisor, Supervisor, Supervisor, Supervisor,
   Feeder, Feeder, Feeder, Supervisor, Supervisor,
   Worker 0, Worker 0, Worker 0, Worker 0, Worker 0, Worker 0, Supervisor]) = Done
  \<and> workers (run (example_env (fails_on (dump_cmd (example_args 1 None) ''public.c'' ''db2''))) (example_args 1 None)
  [Supervisor, Supervisor, Supervisor, Supervisor, Supervisor, Supervisor, Supervisor, Supervisor, Supervisor, Supervisor, Supervisor,
   Feeder, Feeder, Feeder, Supervisor, Supervisor,
   Worker 0, Worker 0, Worker 0, Worker 0, Worker 0, Worker 0, Supervisor]) = [Dead]
  \<and> last (logged (run (example_env (fails_on (dump_cmd (example_args 1 None) ''public.c'' ''db2''))) (example_args 1 None)
  [Supervisor, Supervisor, Supervisor, Supervisor, Supervisor, Supervisor, Supervisor, Supervisor, Supervisor, Supervisor, Supervisor,
   Feeder, Feeder, Feeder, Supervisor, Supervisor,
   Worker 0, Worker 0, Worker 0, Worker 0, Worker 0, Worker 0, Supervisor])) = (ERROR, FailedToDump ''public.c'' ''db2'')"
  by (simp add: eval_run dump_cmd_def schema_cmd_def)

text \<open>
  Claim C5 (not met by the code). Two workers, three tables, every dump succeeds. The
  supervisor puts the three jobs, the feeder thread writes them to the pipe, and the
  supervisor goes once round its loop. While it sleeps, worker 0 is killed with three jobs
  in the queue; worker 1 takes all of them before the supervisor tests the queue again. The
  supervisor finds the queue empty and returns with exit code 0: the dead worker is never
  detected.
\<close>

theorem killed_worker_goes_unnoticed:
  "pc (run (example_env ok_shell) (example_args 2 None)
  [Supervisor, Supervisor, Supervisor, Supervisor, Supervisor, Supervisor, Supervisor, Supervisor, Supervisor, Supervisor, Supervisor,
   Feeder, Feeder, Feeder, Supervisor, Supervisor, Kill 0, Worker 1, Worker 1, Worker 1, Worker 1, Worker 1, Supervisor]) = Done
  \<and> workers (run (example_env ok_shell) (example_args 2 None)
  [Supervisor, Supervisor, Supervisor, Supervisor, Supervisor, Supervisor, Supervisor, Supervisor, Supervisor, Supervisor, Supervisor,
   Feeder, Feeder, Feeder, Supervisor, Supervisor, Kill 0, Worker 1, Worker 1, Worker 1, Worker 1, Worker 1, Supervisor]) = [Dead, Busy (''db2'', ''public.c'')]
  \<and> queue (run (example_env ok_shell) (example_args 2 None)
  [Supervisor, Supervisor, Supervisor, Supervisor, Supervisor, Supervisor, Supervisor, Supervisor, Supervisor, Supervisor, Supervisor,
   Feeder, Feeder, Feeder, Supervisor, Supervisor, Kill 0]) = [(''db1'', ''public.a''), (''db1'', ''public.b''), (''db2'', ''public.c'')]"
  by (simp add: eval_run)

section \<open>The queue and the dumps: every job at most once\<close>

lemma worker_step_get:
  assumes "w < length (workers s)" and "workers s ! w = Idle" and "queue s = j # q"
  shows "worker_step e a w s = s\<lparr>queue := q, workers := (workers s)[w := Busy j],
           dequeued := dequeued s @ [(w, j)]\<rparr>"
  using assms by (simp add: worker_step_def)

lemma worker_step_blocked:
  assumes "workers s ! w = Idle" and "queue s = []"
  shows "worker_step e a w s = s"
  using assms by (simp add: worker_step_def)

lemma worker_step_dump:
  assumes "w < length (workers s)" and "workers s ! w = Busy j"
  shows "worker_step e a w s =
     s\<lparr>workers := (workers s)[w := (if fst (dump_table e a j) = Continue then Idle else Dead)],
       logged := logged s @ snd (dump_table e a j), dumps := dumps s @ [(w, j)]\<rparr>"
  using assms by (auto simp: worker_step_def split: prod.splits flow.splits)

lemma worker_step_dead:
  assumes "workers s ! w = Dead"
  shows "worker_step e a w s = s"
  using assms by (simp add: worker_step_def)

lemma worker_step_none:
  assumes "\<not> w < length (workers s)"
  shows "worker_step e a w s = s"
  using assms by (simp add: worker_step_def)

lemma queue_inv_step: "queue_inv s \<Longrightarrow> queue_inv (step e a ev s)"
proof (cases ev)
  case Supervisor
  assume "queue_inv s"
  then show ?thesis
    unfolding Supervisor
    by (cases "(e, a, pc s, s)" rule: main_step.cases)
      (auto simp: queue_inv_def step_def split: sum.splits prod.splits)
next
  case Feeder
  assume "queue_inv s"
  then show ?thesis
    unfolding Feeder by (auto simp: queue_inv_def step_def feeder_step_def split: list.splits)
next
  case (Worker w)
  assume "queue_inv s"
  then show ?thesis
    unfolding Worker
    by (auto simp: queue_inv_def step_def worker_step_def
        split: worker.splits list.splits prod.splits flow.splits)
next
  case (Kill w)
  assume "queue_inv s"
  then show ?thesis
    unfolding Kill by (auto simp: queue_inv_def step_def kill_step_def)
qed

lemma queue_inv_run: "queue_inv (run e a evs)"
  unfolding run_def
  by (rule exec_invariant [where P = queue_inv])
    (simp_all add: queue_inv_step, simp add: queue_inv_def init_def)

lemma count_list_update:
  "w < length ws \<Longrightarrow>
   count_list (ws[w := x]) y + (if ws ! w = y then 1 else 0)
     = count_list ws y + (if x = y then 1 else 0)"
proof (induction ws arbitrary: w)
  case Nil
  then show ?case by simp
next
  case (Cons v ws)
  show ?case
  proof (cases w)
    case 0
    then show ?thesis by simp
  next
    case (Suc n)
    then show ?thesis
      using Cons.IH [of n] Cons.prems by (auto split: if_splits)
  qed
qed

lemma count_list_replicate_other: "x \<noteq> y \<Longrightarrow> count_list (replicate n x) y = 0"
  by (induction n) auto

lemma dump_inv_worker:
  assumes inv: "dump_inv s"
  shows "dump_inv (worker_step e a w s)"
proof (cases "w < length (workers s)")
  case False
  then show ?thesis
    using inv by (simp add: worker_step_none)
next
  case in_range: True
  show ?thesis
  proof (cases "workers s ! w")
    case Idle
    show ?thesis
    proof (cases "queue s")
      case Nil
      then show ?thesis
        using inv Idle by (simp add: worker_step_blocked)
    next
      case (Cons j q)
      have "count_list (map snd (dumps s)) k + count_list ((workers s)[w := Busy j]) (Busy k)
          \<le> count_list (map snd (dequeued s @ [(w, j)])) k" for k
        using count_list_update [OF in_range, of "Busy j" "Busy k"] Idle
          inv [unfolded dump_inv_def, rule_format, of k]
        by (auto split: if_splits)
      then show ?thesis
        by (simp add: worker_step_get [OF in_range Idle Cons] dump_inv_def)
    qed
  next
    case (Busy j)
    let ?x = "if fst (dump_table e a j) = Continue then Idle else Dead"
    have "count_list (map snd (dumps s @ [(w, j)])) k + count_list ((workers s)[w := ?x]) (Busy k)
          \<le> count_list (map snd (dequeued s)) k" for k
      using count_list_update [OF in_range, of ?x "Busy k"] Busy
        inv [unfolded dump_inv_def, rule_format, of k]
      by (auto split: if_splits)
    then show ?thesis
      by (simp add: worker_step_dump [OF in_range Busy] dump_inv_def)
  next
    case Dead
    then show ?thesis
      using inv by (simp add: worker_step_dead)
  qed
qed


lemma dump_inv_kill:
  assumes inv: "dump_inv s"
  shows "dump_inv (kill_step w s)"
proof (cases "w < length (workers s)")
  case False
  then show ?thesis
    using inv by (simp add: kill_step_def)
next
  case True
  have "count_list (map snd (dumps s)) k + count_list ((workers s)[w := Dead]) (Busy k)
        \<le> count_list (map snd (dequeued s)) k" for k
    using count_list_update [OF True, of Dead "Busy k"]
      inv [unfolded dump_inv_def, rule_format, of k]
    by (auto split: if_splits)
  then show ?thesis
    using True by (simp add: kill_step_def dump_inv_def)
qed

lemma dump_inv_main:
  assumes inv: "dump_inv s"
  shows "dump_inv (main_step e a (pc s) s)"
proof -
  have "count_list (workers (main_step e a (pc s) s)) (Busy k) = count_list (workers s) (Busy k)"
    for k
  proof (cases "pc s = Start")
    case True
    then show ?thesis
      by (simp add: launchWorkers_replicate count_list_replicate_other split: sum.splits)
  next
    case False
    then show ?thesis
      by (simp add: main_step_workers)
  qed
  then show ?thesis
    using inv by (simp add: dump_inv_def main_step_frame)
qed

lemma dump_inv_feeder: "dump_inv s \<Longrightarrow> dump_inv (feeder_step s)"
  by (simp add: dump_inv_def step_feeder_frame)

lemma dump_inv_step: "dump_inv s \<Longrightarrow> dump_inv (step e a ev s)"
  by (cases ev)
    (simp_all add: step_def dump_inv_main dump_inv_feeder dump_inv_worker dump_inv_kill)

lemma dump_inv_run: "dump_inv (run e a evs)"
  unfolding run_def
  by (rule exec_invariant [where P = dump_inv])
    (simp_all add: dump_inv_step, simp add: dump_inv_def init_def)

section \<open>What the supervisor has put on the queue\<close>

lemma planned_simps [simp]:
  "planned e [] = []"
  "planned e (db # rest) = jobs_of e db @ planned e rest"
  "planned e (xs @ ys) = planned e xs @ planned e ys"
  by (simp_all add: planned_def)

lemma jobs_of_Inr: "list_tables e db = Inr ts \<Longrightarrow> jobs_of e db = map (Pair db) ts"
  by (simp add: jobs_of_def tables_of_def)

lemma jobs_of_Inl: "list_tables e db = Inl x \<Longrightarrow> jobs_of e db = []"
  by (simp add: jobs_of_def tables_of_def)

lemma loading_at_cong:
  assumes "enqueued s' = enqueued s" and "tables_added s' = tables_added s"
  shows "loading_at e dbs s' p = loading_at e dbs s p"
  using assms by (cases p) simp_all

lemma prefix_of_eq: "xs @ ys = zs \<Longrightarrow> prefix xs zs"
  by auto

lemma loading_inv_main:
  assumes inv: "loading_inv e a s"
  shows "loading_inv e a (main_step e a (pc s) s)"
proof (cases "(e, a, pc s, s)" rule: main_step.cases)
  case (1 e' a' s')
  then show ?thesis
    using inv by (auto simp: loading_inv_def selected_def split: sum.splits)
next
  case (2 e' a' db rest s')
  then show ?thesis
    using inv by (auto simp: loading_inv_def split: sum.splits prod.splits intro: prefix_of_eq)
next
  case (3 e' a' db rest s')
  then show ?thesis
    using inv
    by (auto simp: loading_inv_def jobs_of_Inr split: sum.splits intro: prefix_of_eq)
next
  case (4 e' a' db n t ts rest s')
  then show ?thesis
    using inv by (auto simp: loading_inv_def)
next
  case (5 e' a' db n rest s')
  then show ?thesis
    using inv by (auto simp: loading_inv_def)
next
  case (6 e' a' s')
  then show ?thesis
    using inv by (auto simp: loading_inv_def)
next
  case (7 e' a' i s')
  then show ?thesis
    using inv by (auto simp: loading_inv_def)
next
  case (8 e' a' i s')
  then show ?thesis
    using inv by (auto simp: loading_inv_def)
next
  case (9 e' a' s')
  then show ?thesis
    using inv by (auto simp: loading_inv_def)
next
  case (10 e' a' f s')
  then show ?thesis
    using inv by (auto simp: loading_inv_def)
qed

lemma loading_inv_step:
  assumes inv: "loading_inv e a s"
  shows "loading_inv e a (step e a ev s)"
proof (cases ev)
  case Supervisor
  then show ?thesis
    using inv by (simp add: step_def loading_inv_main)
next
  case Feeder
  then show ?thesis
    using inv loading_at_cong [of "feeder_step s" s e "selected e a" "pc s"]
    by (simp add: step_def loading_inv_def step_feeder_frame)
next
  case (Worker w)
  then show ?thesis
    using inv loading_at_cong [of "worker_step e a w s" s e "selected e a" "pc s"]
    by (simp add: step_def loading_inv_def step_worker_frame)
next
  case (Kill w)
  then show ?thesis
    using inv loading_at_cong [of "kill_step w s" s e "selected e a" "pc s"]
    by (simp add: step_def loading_inv_def step_kill_frame)
qed

lemma loading_inv_run: "loading_inv e a (run e a evs)"
  unfolding run_def
  by (rule exec_invariant [where P = "loading_inv e a"])
    (simp_all add: loading_inv_step, simp add: loading_inv_def init_def)

section \<open>No job is put back on the queue\<close>

lemma loading_at_prefix: "loading_at e dbs s p \<Longrightarrow> prefix (enqueued s) (planned e dbs)"
  by (cases p) (auto intro: prefix_of_eq)

lemma enqueued_prefix_planned: "prefix (enqueued (run e a evs)) (planned e (selected e a))"
  using loading_inv_run [of e a evs] by (simp add: loading_inv_def loading_at_prefix)

lemma count_le_1_distinct: "(\<And>x. count_list xs x \<le> 1) \<Longrightarrow> distinct xs"
proof (induction xs)
  case Nil
  then show ?case by simp
next
  case (Cons y ys)
  have "count_list ys x \<le> 1" for x
    using Cons.prems [of x] by (simp split: if_splits)
  moreover have "y \<notin> set ys"
    using Cons.prems [of y] by (simp add: count_list_0_iff)
  ultimately show ?case
    using Cons.IH by simp
qed

lemma distinct_count_le_1: "distinct xs \<Longrightarrow> count_list xs x \<le> 1"
  by (induction xs) (auto simp: count_list_0_iff)

lemma worker_step_queue:
  "queue (worker_step e a w s) = queue s \<or> queue (worker_step e a w s) = tl (queue s)"
  by (auto simp: worker_step_def split: worker.splits list.splits prod.splits flow.splits)

text \<open>
  Claim C8. On every schedule the queue (its pipe followed by its buffer) is exactly the
  jobs put and not yet taken, in the order in which they were put; the jobs put are an
  initial part of the list of discovered tables, so the supervisor puts each discovered
  table at most once and never a job that was taken; an action of a worker or the death of
  a worker puts nothing on the queue; the feeder thread only moves a job from the buffer to
  the pipe; and a job is dumped at most as often as it was taken. When the discovered tables
  are pairwise different, no job is taken twice, no job is dumped twice and no job that was
  taken is on the queue.
\<close>

theorem dequeued_jobs_are_never_requeued:
  assumes "s = run e a evs"
  shows "enqueued s = map snd (dequeued s) @ queue s @ buffer s
    \<and> prefix (enqueued s) (planned e (selected e a))
    \<and> (\<forall>j. count_list (map snd (dumps s)) j \<le> count_list (map snd (dequeued s)) j)
    \<and> (\<forall>w. enqueued (step e a (Worker w) s) = enqueued s
            \<and> buffer (step e a (Worker w) s) = buffer s
            \<and> (queue (step e a (Worker w) s) = queue s
                 \<or> queue (step e a (Worker w) s) = tl (queue s)))
    \<and> (\<forall>w. enqueued (step e a (Kill w) s) = enqueued s
            \<and> buffer (step e a (Kill w) s) = buffer s
            \<and> queue (step e a (Kill w) s) = queue s)
    \<and> enqueued (step e a Feeder s) = enqueued s
    \<and> queue (step e a Feeder s) @ buffer (step e a Feeder s) = queue s @ buffer s
    \<and> (distinct (planned e (selected e a)) \<longrightarrow>
          distinct (map snd (dequeued s)) \<and> distinct (map snd (dumps s))
          \<and> set (map snd (dequeued s)) \<inter> set (queue s @ buffer s) = {})"
proof -
  have q: "enqueued s = map snd (dequeued s) @ queue s @ buffer s"
    using queue_inv_run [of e a evs] assms by (simp add: queue_inv_def)
  have p: "prefix (enqueued s) (planned e (selected e a))"
    using enqueued_prefix_planned assms by simp
  have d: "count_list (map snd (dumps s)) j \<le> count_list (map snd (dequeued s)) j" for j
    using dump_inv_run [of e a evs, unfolded dump_inv_def, rule_format, of j] assms by simp
  have w: "enqueued (step e a (Worker w) s) = enqueued s
      \<and> buffer (step e a (Worker w) s) = buffer s
      \<and> (queue (step e a (Worker w) s) = queue s \<or> queue (step e a (Worker w) s) = tl (queue s))"
    for w
    using worker_step_queue [of e a w s] by (simp add: step_def step_worker_frame)
  have k: "enqueued (step e a (Kill w) s) = enqueued s
      \<and> buffer (step e a (Kill w) s) = buffer s \<and> queue (step e a (Kill w) s) = queue s"
    for w
    by (simp add: step_def step_kill_frame)
  have f: "enqueued (step e a Feeder s) = enqueued s
      \<and> queue (step e a Feeder s) @ buffer (step e a Feeder s) = queue s @ buffer s"
    by (simp add: step_def step_feeder_frame)
  have u: "distinct (map snd (dequeued s)) \<and> distinct (map snd (dumps s))
      \<and> set (map snd (dequeued s)) \<inter> set (queue s @ buffer s) = {}"
    if "distinct (planned e (selected e a))"
  proof -
    have "distinct (enqueued s)"
      using that p by (auto simp: prefix_def)
    then have dq: "distinct (map snd (dequeued s))"
      and disj: "set (map snd (dequeued s)) \<inter> set (queue s @ buffer s) = {}"
      unfolding q by auto
    have "count_list (map snd (dumps s)) j \<le> 1" for j
      using d [of j] distinct_count_le_1 [OF dq, of j] by simp
    then have "distinct (map snd (dumps s))"
      by (rule count_le_1_distinct)
    then show ?thesis
      using dq disj by simp
  qed
  show ?thesis
    using q p d w k f u by blast
qed

lemma planned_example:
  "selected (example_env sh) (example_args j None) = [''db1'', ''db2'']"
  "planned (example_env sh) [''db1'', ''db2'']
     = [(''db1'', ''public.a''), (''db1'', ''public.b''), (''db2'', ''public.c'')]"
  by (simp_all add: selected_def startup_def check_bindir_def select_dbs_def jobs_of_def
      tables_of_def example_env_simps example_args_simps)

theorem dequeued_jobs_are_never_requeued_witness:
  "distinct (planned (example_env ok_shell) (selected (example_env ok_shell) (example_args 2 None)))
   \<and> distinct (map snd (dequeued (run (example_env ok_shell) (example_args 2 None)
        [Supervisor, Supervisor, Supervisor, Supervisor, Supervisor, Feeder, Feeder,
         Worker 0, Worker 1, Worker 0, Supervisor, Supervisor, Worker 0])))
   \<and> queue (run (example_env ok_shell) (example_args 2 None)
        [Supervisor, Supervisor, Supervisor, Supervisor, Supervisor, Feeder, Feeder,
         Worker 0, Worker 1, Worker 0, Supervisor, Supervisor, Worker 0]) = []"
proof -
  have "distinct (planned (example_env ok_shell)
      (selected (example_env ok_shell) (example_args 2 None)))"
    by (simp add: planned_example(1) jobs_of_def tables_of_def example_env_simps)
  moreover have "queue (run (example_env ok_shell) (example_args 2 None)
        [Supervisor, Supervisor, Supervisor, Supervisor, Supervisor, Feeder, Feeder,
         Worker 0, Worker 1, Worker 0, Supervisor, Supervisor, Worker 0]) = []"
    by (simp add: eval_run)
  ultimately show ?thesis
    using dequeued_jobs_are_never_requeued [OF refl, of "example_env ok_shell"
        "example_args 2 None" "[Supervisor, Supervisor, Supervisor, Supervisor, Supervisor,
         Feeder, Feeder, Worker 0, Worker 1, Worker 0, Supervisor, Supervisor, Worker 0]"]
    by blast
qed

section \<open>A run that fails at startup\<close>

theorem zero_workers_never_fail_liveness_witness:
  "jobs (example_args 0 None) = 0
   \<and> allWorkersAlive [Idle, Busy (''db1'', ''public.a'')]
   \<and> workers (run (example_env ok_shell) (example_args 0 None)
        [Supervisor, Supervisor, Supervisor, Supervisor, Supervisor, Supervisor, Supervisor,
         Supervisor, Supervisor, Supervisor, Supervisor, Feeder, Feeder, Feeder, Worker 0,
         Supervisor, Supervisor]) = []
   \<and> queue (run (example_env ok_shell) (example_args 0 None)
        [Supervisor, Supervisor, Supervisor, Supervisor, Supervisor, Supervisor, Supervisor,
         Supervisor, Supervisor, Supervisor, Supervisor, Feeder, Feeder, Feeder, Worker 0,
         Supervisor, Supervisor])
      = [(''db1'', ''public.a''), (''db1'', ''public.b''), (''db2'', ''public.c'')]
   \<and> pc (run (example_env ok_shell) (example_args 0 None)
        [Supervisor, Supervisor, Supervisor, Supervisor, Supervisor, Supervisor, Supervisor,
         Supervisor, Supervisor, Supervisor, Supervisor, Feeder, Feeder, Feeder, Worker 0,
         Supervisor, Supervisor])
      = Drain 5"
proof -
  have "queue (run (example_env ok_shell) (example_args 0 None)
        [Supervisor, Supervisor, Supervisor, Supervisor, Supervisor, Supervisor, Supervisor,
         Supervisor, Supervisor, Supervisor, Supervisor, Feeder, Feeder, Feeder, Worker 0,
         Supervisor, Supervisor])
      = [(''db1'', ''public.a''), (''db1'', ''public.b''), (''db2'', ''public.c'')]
   \<and> pc (run (example_env ok_shell) (example_args 0 None)
        [Supervisor, Supervisor, Supervisor, Supervisor, Supervisor, Supervisor, Supervisor,
         Supervisor, Supervisor, Supervisor, Supervisor, Feeder, Feeder, Feeder, Worker 0,
         Supervisor, Supervisor])
      = Drain 5"
    by (simp add: eval_run)
  then show ?thesis
    using zero_workers_never_fail_liveness [of "[Idle, Busy (''db1'', ''public.a'')]"
        "example_args 0 None" "example_env ok_shell"]
    by (simp add: example_args_simps is_alive_def)
qed

lemma run_startup_fails:
  assumes "startup e a = Inl f"
  shows "run e a evs = (if Supervisor \<in> set evs then init\<lparr>pc := Fatal f\<rparr> else init)"
proof -
  have "exec e a init evs = (if Supervisor \<in> set evs then init\<lparr>pc := Fatal f\<rparr> else init)"
  proof (induction evs)
    case Nil
    show ?case by simp
  next
    case (Cons ev evs)
    show ?case
    proof (cases ev)
      case Supervisor
      have "step e a ev init = init\<lparr>pc := Fatal f\<rparr>"
        using assms Supervisor by (simp add: step_def halted_def init_def)
      then show ?thesis
        using Supervisor by (simp add: exec_halted halted_def)
    next
      case Feeder
      then have "step e a ev init = init"
        by (simp add: step_def feeder_step_def init_def)
      then show ?thesis
        using Cons.IH Feeder by simp
    next
      case (Worker w)
      then have "step e a ev init = init"
        by (simp add: step_def worker_step_def init_def)
      then show ?thesis
        using Cons.IH Worker by simp
    next
      case (Kill w)
      then have "step e a ev init = init"
        by (simp add: step_def kill_step_def init_def)
      then show ?thesis
        using Cons.IH Kill by simp
    qed
  qed
  then show ?thesis
    by (simp add: run_def)
qed

lemma select_dbs_empty_name: "dbname a = Some [] \<Longrightarrow> select_dbs a dbs = Inr dbs"
  by (simp add: select_dbs_def)

text \<open>
  Claim C7, amended. The code tests \<open>if args.dbname:\<close> before it looks the name up, and the
  empty string is false there, so an empty name is no restriction. For a name that is not
  empty the claim holds: the run is started with \<open>--dbname d\<close>, \<open>d\<close> not empty, and \<open>d\<close> is
  not among the databases the server lists. Then \<open>main\<close> raises before \<open>launchWorkers\<close>: on
  every schedule there is no worker, no schema validation has run, nothing was put on the
  queue and nothing was dumped, and the first action of the supervisor ends the run with
  exit code 1.
\<close>

theorem unknown_database_fails_before_any_work:
  assumes "dbname a = Some d" and "d \<noteq> []" and "check_bindir e a = Inr ()"
    and "list_databases e = Inr dbs" and "d \<notin> set dbs" and "s = run e a evs"
  shows "startup e a = Inl (DbNotFound d)
    \<and> workers s = [] \<and> schema_runs s = [] \<and> enqueued s = [] \<and> queue s = []
    \<and> buffer s = [] \<and> dequeued s = [] \<and> dumps s = []
    \<and> (Supervisor \<in> set evs \<longrightarrow> pc s = Fatal (DbNotFound d) \<and> exit_code (pc s) = Some 1)
    \<and> (Supervisor \<notin> set evs \<longrightarrow> pc s = Start)"
proof -
  have "startup e a = Inl (DbNotFound d)"
    using assms(1-5) by (simp add: startup_def select_dbs_def)
  then show ?thesis
    using run_startup_fails [of e a "DbNotFound d" evs] assms(6) by (simp add: init_def)
qed

theorem unknown_database_fails_before_any_work_witness:
  "dbname (example_args 2 (Some ''db3'')) = Some ''db3''
   \<and> ''db3'' \<notin> set [''db1'', ''db2'']
   \<and> pc (run (example_env ok_shell) (example_args 2 (Some ''db3'')) [Worker 0, Supervisor, Worker 1])
       = Fatal (DbNotFound ''db3'')
   \<and> workers (run (example_env ok_shell) (example_args 2 (Some ''db3''))
       [Worker 0, Supervisor, Worker 1]) = []"
  using unknown_database_fails_before_any_work [of "example_args 2 (Some ''db3'')" "''db3''"
      "example_env ok_shell" "[''db1'', ''db2'']" _ "[Worker 0, Supervisor, Worker 1]", OF _ _ _ _ _ refl]
  by (simp add: example_args_simps example_env_simps check_bindir_def)

text \<open>
  Claim C7, as it is worded, fails for the empty name. The run is started with \<open>--dbname ''\<close>
  on a server that lists \<open>db1\<close> and \<open>db2\<close>; the empty name is not in that list. The startup
  does not raise: it selects both databases. Both schemas are validated, the three tables
  are put, taken and dumped by the worker, and the run ends with exit code 0.
\<close>

theorem empty_dbname_is_no_restriction:
  "dbname (example_args 1 (Some [])) = Some []
   \<and> list_databases (example_env ok_shell) = Inr [''db1'', ''db2'']
   \<and> [] \<notin> set [''db1'', ''db2'']
   \<and> startup (example_env ok_shell) (example_args 1 (Some [])) = Inr [''db1'', ''db2'']
   \<and> schema_runs (run (example_env ok_shell) (example_args 1 (Some []))
        [Supervisor, Supervisor, Supervisor, Supervisor, Supervisor, Supervisor, Supervisor,
         Supervisor, Supervisor, Supervisor, Supervisor, Feeder, Feeder, Feeder,
         Worker 0, Worker 0, Worker 0, Worker 0, Worker 0, Worker 0, Supervisor])
       = [(''db1'', True), (''db2'', True)]
   \<and> dumps (run (example_env ok_shell) (example_args 1 (Some []))
        [Supervisor, Supervisor, Supervisor, Supervisor, Supervisor, Supervisor, Supervisor,
         Supervisor, Supervisor, Supervisor, Supervisor, Feeder, Feeder, Feeder,
         Worker 0, Worker 0, Worker 0, Worker 0, Worker 0, Worker 0, Supervisor])
       = [(0, (''db1'', ''public.a'')), (0, (''db1'', ''public.b'')), (0, (''db2'', ''public.c''))]
   \<and> pc (run (example_env ok_shell) (example_args 1 (Some []))
        [Supervisor, Supervisor, Supervisor, Supervisor, Supervisor, Supervisor, Supervisor,
         Supervisor, Supervisor, Supervisor, Supervisor, Feeder, Feeder, Feeder,
         Worker 0, Worker 0, Worker 0, Worker 0, Worker 0, Worker 0, Supervisor]) = Done
   \<and> exit_code (pc (run (example_env ok_shell) (example_args 1 (Some []))
        [Supervisor, Supervisor, Supervisor, Supervisor, Supervisor, Supervisor, Supervisor,
         Supervisor, Supervisor, Supervisor, Supervisor, Feeder, Feeder, Feeder,
         Worker 0, Worker 0, Worker 0, Worker 0, Worker 0, Worker 0, Supervisor])) = Some 0"
  by (simp add: eval_run)

section \<open>How far the supervisor gets, and why a run ends\<close>

lemma tables_of_Inr: "list_tables e db = Inr ts \<Longrightarrow> tables_of e db = ts"
  by (simp add: tables_of_def)

lemma loop_steps_pos: "0 < loop_steps e dbs"
  by (cases dbs) simp_all

lemma remaining_0_iff: "(remaining e a p = 0) = (draining p \<or> (\<exists>f. p = Fatal f))"
  using loop_steps_pos [of e] by (cases p) (auto simp: less_Suc_eq_0_disj)

lemma remaining_main_less:
  assumes "remaining e a (pc s) \<noteq> 0"
  shows "remaining e a (pc (main_step e a (pc s) s)) < remaining e a (pc s)"
proof (cases "(e, a, pc s, s)" rule: main_step.cases)
  case (1 e' a' s')
  then show ?thesis
    by (auto simp: selected_def split: sum.splits)
next
  case (2 e' a' db rest s')
  then show ?thesis
    by (auto split: sum.splits prod.splits)
next
  case (3 e' a' db rest s')
  then show ?thesis
    by (auto simp: tables_of_Inr split: sum.splits)
next
  case (6 e' a' s')
  then show ?thesis
    by auto
qed (use assms in auto)

lemma remaining_main_0:
  assumes "remaining e a (pc s) = 0"
  shows "remaining e a (pc (main_step e a (pc s) s)) = 0"
  using assms by (cases "(e, a, pc s, s)" rule: main_step.cases) auto

lemma remaining_step:
  "remaining e a (pc (step e a ev s))
     \<le> remaining e a (pc s) - (if ev = Supervisor then 1 else 0)"
proof (cases "halted (pc s)")
  case True
  then have "remaining e a (pc s) = 0"
    by (cases "pc s") (simp_all add: halted_def)
  then show ?thesis
    using True by (simp add: step_def)
next
  case False
  show ?thesis
  proof (cases ev)
    case Supervisor
    show ?thesis
    proof (cases "remaining e a (pc s) = 0")
      case True
      then show ?thesis
        using False Supervisor remaining_main_0 [of e a s] by (simp add: step_def)
    next
      case nz: False
      then show ?thesis
        using False Supervisor remaining_main_less [of e a s] by (simp add: step_def)
    qed
  next
    case Feeder
    then show ?thesis
      using False by (simp add: step_def step_feeder_frame)
  next
    case (Worker w)
    then show ?thesis
      using False by (simp add: step_def step_worker_frame)
  next
    case (Kill w)
    then show ?thesis
      using False by (simp add: step_def step_kill_frame)
  qed
qed

lemma remaining_exec:
  "remaining e a (pc (exec e a s evs)) \<le> remaining e a (pc s) - count_list evs Supervisor"
proof (induction evs arbitrary: s)
  case Nil
  show ?case by simp
next
  case (Cons ev evs)
  have "remaining e a (pc (exec e a (step e a ev s) evs))
      \<le> remaining e a (pc (step e a ev s)) - count_list evs Supervisor"
    by (rule Cons.IH)
  also have "\<dots> \<le> (remaining e a (pc s) - (if ev = Supervisor then 1 else 0))
      - count_list evs Supervisor"
    using remaining_step [of e a ev s] by (rule diff_le_mono)
  finally show ?case
    by (auto simp: algebra_simps)
qed

lemma loading_ends:
  assumes "loading_bound e a \<le> count_list evs Supervisor"
  shows "draining (pc (run e a evs)) \<or> (\<exists>f. pc (run e a evs) = Fatal f)"
proof -
  have "remaining e a (pc (run e a evs)) = 0"
    using remaining_exec [of e a init evs] assms
    by (simp add: run_def loading_bound_def init_def)
  then show ?thesis
    by (simp add: remaining_0_iff)
qed

lemma verifySchema_result:
  "fst (verifySchema e a db) = (if schema_ok e a db then Inr () else Inl (SchemaVerifyFailed db))"
  by (simp add: verifySchema_def shell_exec_with_output_def Let_def schema_ok_def)

lemma cause_inv_main:
  assumes load: "loading_inv e a s" and inv: "cause_inv e a s"
  shows "cause_inv e a (main_step e a (pc s) s)"
proof (cases "(e, a, pc s, s)" rule: main_step.cases)
  case (1 e' a' s')
  then show ?thesis
    using inv startup_fatal [of e a]
    by (auto simp: cause_inv_def selected_def init_def split: sum.splits)
next
  case (2 e' a' db rest s')
  then show ?thesis
    using inv verifySchema_result [of e a db]
    by (auto simp: cause_inv_def split: sum.splits prod.splits if_splits)
next
  case (3 e' a' db rest s')
  then have pcs: "pc s = AddTables db rest"
    by auto
  then have db: "db \<in> set (selected e a)" and rest: "set rest \<subseteq> set (selected e a)"
    using inv by (auto simp: cause_inv_def)
  show ?thesis
  proof (cases "list_tables e db")
    case (Inl x)
    then have "\<exists>db\<in>set (selected e a). isl (list_tables e db)"
      using db by (auto intro: bexI [of _ db])
    then show ?thesis
      using pcs Inl by (simp add: cause_inv_def)
  next
    case (Inr ts)
    then show ?thesis
      using pcs Inr db rest by (simp add: cause_inv_def)
  qed
next
  case (4 e' a' db n t ts rest s')
  then show ?thesis
    using inv by (auto simp: cause_inv_def)
next
  case (5 e' a' db n rest s')
  then show ?thesis
    using inv by (auto simp: cause_inv_def)
next
  case (6 e' a' s')
  then show ?thesis
    using inv load by (auto simp: cause_inv_def loading_inv_def split: if_splits)
next
  case (7 e' a' i s')
  then show ?thesis
    using inv by (auto simp: cause_inv_def split: if_splits)
next
  case (8 e' a' i s')
  then show ?thesis
    using inv load by (auto simp: cause_inv_def loading_inv_def split: if_splits)
next
  case (9 e' a' s')
  then show ?thesis
    using inv by (auto simp: cause_inv_def)
next
  case (10 e' a' f s')
  then show ?thesis
    using inv by (auto simp: cause_inv_def)
qed

lemma cause_inv_step:
  assumes load: "loading_inv e a s" and inv: "cause_inv e a s"
  shows "cause_inv e a (step e a ev s)"
proof (cases "halted (pc s)")
  case True
  then show ?thesis
    using inv by (simp add: step_def)
next
  case False
  then have running: "pc s \<noteq> Done" "\<And>f. pc s \<noteq> Fatal f"
    by (auto simp: halted_def)
  show ?thesis
  proof (cases ev)
    case Supervisor
    then show ?thesis
      using False cause_inv_main [OF load inv] by (simp add: step_def)
  next
    case Feeder
    have "feeder_step init = init"
      by (simp add: feeder_step_def init_def)
    then show ?thesis
      using False Feeder inv running
      by (auto simp: step_def cause_inv_def step_feeder_frame)
  next
    case (Worker w)
    have "worker_step e a w init = init"
      by (simp add: worker_step_def init_def)
    then show ?thesis
      using False Worker inv running
      by (auto simp: step_def cause_inv_def step_worker_frame)
  next
    case (Kill w)
    have "kill_step w init = init"
      by (simp add: kill_step_def init_def)
    then show ?thesis
      using False Kill inv running
      by (auto simp: step_def cause_inv_def step_kill_frame)
  qed
qed

lemma cause_inv_run: "cause_inv e a (run e a evs)"
proof -
  have "loading_inv e a (exec e a init evs) \<and> cause_inv e a (exec e a init evs)"
    by (rule exec_invariant [where P = "\<lambda>s. loading_inv e a s \<and> cause_inv e a s"])
      (simp_all add: loading_inv_step cause_inv_step, simp add: loading_inv_def cause_inv_def init_def)
  then show ?thesis
    by (simp add: run_def)
qed

section \<open>A run that finds no table\<close>

lemma done_needs_jobs: "pc (run e a evs) = Done \<Longrightarrow> enqueued (run e a evs) \<noteq> []"
  using loading_inv_run [of e a evs] by (auto simp: loading_inv_def)

lemma draining_needs_jobs:
  "draining (pc (run e a evs)) \<Longrightarrow>
   enqueued (run e a evs) = planned e (selected e a) \<and> enqueued (run e a evs) \<noteq> []"
  using loading_inv_run [of e a evs]
  by (cases "pc (run e a evs)") (auto simp: loading_inv_def)

lemma planned_empty: "(\<And>db. db \<in> set dbs \<Longrightarrow> list_tables e db = Inr []) \<Longrightarrow> planned e dbs = []"
  by (induction dbs) (simp_all add: jobs_of_Inr)

lemma loop_steps_empty:
  "(\<And>db. db \<in> set dbs \<Longrightarrow> list_tables e db = Inr []) \<Longrightarrow> loop_steps e dbs = 1 + 3 * length dbs"
  by (induction dbs) (simp_all add: tables_of_Inr)

text \<open>
  Claim C6. A run never ends with exit code 0 without having put a table on the queue. When
  the startup succeeds, every schema validation succeeds and every database has no table,
  then on every schedule nothing is put on the queue, the run can only end with ``No tables
  found to be dumped'' (exit code 1), and it has ended so once the supervisor has taken
  \<open>2 + 3 * length dbs\<close> actions. The list of databases may be empty.
\<close>

theorem no_tables_is_fatal:
  assumes "s = run e a evs"
  shows "(pc s = Done \<longrightarrow> enqueued s \<noteq> [])
    \<and> (startup e a = Inr dbs \<and> (\<forall>db\<in>set dbs. schema_ok e a db)
         \<and> (\<forall>db\<in>set dbs. list_tables e db = Inr []) \<longrightarrow>
          enqueued s = [] \<and> pc s \<noteq> Done
          \<and> (halted (pc s) \<longrightarrow> pc s = Fatal NoTablesFound \<and> exit_code (pc s) = Some 1)
          \<and> (2 + 3 * length dbs \<le> count_list evs Supervisor \<longrightarrow> pc s = Fatal NoTablesFound))"
proof -
  have general: "pc s = Done \<longrightarrow> enqueued s \<noteq> []"
    using done_needs_jobs [of e a evs] assms by simp
  have special: "enqueued s = [] \<and> pc s \<noteq> Done
      \<and> (halted (pc s) \<longrightarrow> pc s = Fatal NoTablesFound \<and> exit_code (pc s) = Some 1)
      \<and> (2 + 3 * length dbs \<le> count_list evs Supervisor \<longrightarrow> pc s = Fatal NoTablesFound)"
    if start: "startup e a = Inr dbs" and schema: "\<forall>db\<in>set dbs. schema_ok e a db"
      and empty: "\<forall>db\<in>set dbs. list_tables e db = Inr []"
  proof -
    have sel: "selected e a = dbs"
      using start by (simp add: selected_def)
    have pl: "planned e dbs = []"
      using empty by (simp add: planned_empty)
    have enq: "enqueued s = []"
      using enqueued_prefix_planned [of e a evs] assms sel pl by simp
    have not_draining: "\<not> draining (pc s)"
      using draining_needs_jobs [of e a evs] assms enq by auto
    have fatal: "f = NoTablesFound" if "pc s = Fatal f" for f
    proof -
      have "fatal_cause e a s f"
        using cause_inv_run [of e a evs] assms that by (simp add: cause_inv_def)
      then show ?thesis
        using start schema empty sel enq by (cases f) auto
    qed
    have halt: "pc s = Fatal NoTablesFound \<and> exit_code (pc s) = Some 1" if "halted (pc s)"
      using that not_draining fatal by (cases "pc s") (auto simp: halted_def)
    have bound: "loading_bound e a = 2 + 3 * length dbs"
      using empty by (simp add: loading_bound_def sel loop_steps_empty)
    have ends: "pc s = Fatal NoTablesFound" if "2 + 3 * length dbs \<le> count_list evs Supervisor"
      using loading_ends [of e a evs] that bound assms not_draining fatal by auto
    show ?thesis
      using enq not_draining halt ends by auto
  qed
  show ?thesis
    using general special by blast
qed

lemma tableless_env_simps:
  "path_exists tableless_env p = True"
  "list_databases tableless_env = Inr [''db1'']"
  "list_tables tableless_env d = Inr []"
  "shell tableless_env = ok_shell"
  by (simp_all add: tableless_env_def)

theorem no_tables_is_fatal_witness:
  "startup tableless_env (example_args 1 None) = Inr [''db1'']
   \<and> schema_ok tableless_env (example_args 1 None) ''db1''
   \<and> list_tables tableless_env ''db1'' = Inr []
   \<and> pc (run tableless_env (example_args 1 None)
        [Supervisor, Worker 0, Supervisor, Supervisor, Supervisor, Supervisor])
       = Fatal NoTablesFound"
proof -
  have "startup tableless_env (example_args 1 None) = Inr [''db1'']"
    by (simp add: startup_def check_bindir_def select_dbs_def tableless_env_simps
        example_args_simps)
  moreover have "schema_ok tableless_env (example_args 1 None) ''db1''"
    by (simp add: schema_ok_def tableless_env_simps ok_shell_def)
  moreover have "list_tables tableless_env ''db1'' = Inr []"
    by (simp add: tableless_env_simps)
  ultimately show ?thesis
    using no_tables_is_fatal [OF refl, of tableless_env "example_args 1 None"
        "[Supervisor, Worker 0, Supervisor, Supervisor, Supervisor, Supervisor]" "[''db1'']"]
    by simp
qed

section \<open>A failed schema validation\<close>

lemma schema_inv_main:
  assumes inv: "schema_inv e a s"
  shows "schema_inv e a (main_step e a (pc s) s)"
proof (cases "(e, a, pc s, s)" rule: main_step.cases)
  case (2 e' a' db rest s')
  then show ?thesis
    using inv verifySchema_result [of e a db]
    by (auto simp: schema_inv_def split: sum.splits prod.splits if_splits)
qed (use inv in \<open>auto simp: schema_inv_def split: sum.splits if_splits\<close>)

lemma schema_inv_step:
  assumes inv: "schema_inv e a s"
  shows "schema_inv e a (step e a ev s)"
proof (cases ev)
  case Supervisor
  then show ?thesis
    using inv by (simp add: step_def schema_inv_main)
next
  case Feeder
  then show ?thesis
    using inv by (simp add: step_def schema_inv_def step_feeder_frame)
next
  case (Worker w)
  then show ?thesis
    using inv by (simp add: step_def schema_inv_def step_worker_frame)
next
  case (Kill w)
  then show ?thesis
    using inv by (simp add: step_def schema_inv_def step_kill_frame)
qed

lemma schema_inv_run: "schema_inv e a (run e a evs)"
  unfolding run_def
  by (rule exec_invariant [where P = "schema_inv e a"])
    (simp_all add: schema_inv_step, simp add: schema_inv_def init_def)

lemma planned_cancel:
  assumes "xs @ planned e (zs @ blk) = planned e (pre @ blk)"
  shows "prefix xs (planned e pre)"
proof -
  have "(xs @ planned e zs) @ planned e blk = planned e pre @ planned e blk"
    using assms by simp
  then have "xs @ planned e zs = planned e pre"
    by (simp only: append_same_eq)
  then show ?thesis
    by (rule prefix_of_eq)
qed

lemma planned_dbs: "(db, t) \<in> set (planned e dbs) \<Longrightarrow> db \<in> set dbs"
  by (induction dbs) (auto simp: jobs_of_def)

lemma blocked_inv_main:
  assumes sel: "selected e a = pre @ bad # post" and bad: "\<not> schema_ok e a bad"
    and load: "loading_inv e a s" and inv: "blocked_inv e pre (bad # post) s"
  shows "blocked_inv e pre (bad # post) (main_step e a (pc s) s)"
proof (cases "(e, a, pc s, s)" rule: main_step.cases)
  case (1 e' a' s')
  then have "pc s = Start"
    by auto
  then show ?thesis
    using sel load
    by (auto simp: blocked_inv_def loading_inv_def selected_def suffix_def split: sum.splits)
next
  case (2 e' a' db rest s')
  then have pcs: "pc s = ForDbs (db # rest)"
    by auto
  then obtain zs where zs: "db # rest = zs @ bad # post"
    using inv by (auto simp: blocked_inv_def suffix_def)
  have eq: "enqueued s @ planned e (zs @ bad # post) = planned e (pre @ bad # post)"
    using load pcs sel zs by (simp add: loading_inv_def del: planned_simps)
  show ?thesis
  proof (cases "schema_ok e a db")
    case True
    then have "zs \<noteq> []"
      using zs bad by auto
    then have "suffix (bad # post) rest"
      using zs by (cases zs) (auto simp: suffix_def)
    then show ?thesis
      using pcs True verifySchema_result [of e a db]
      by (auto simp: blocked_inv_def split: prod.splits sum.splits)
  next
    case False
    then show ?thesis
      using pcs verifySchema_result [of e a db] planned_cancel [OF eq]
      by (auto simp: blocked_inv_def split: prod.splits sum.splits)
  qed
next
  case (3 e' a' db rest s')
  then have pcs: "pc s = AddTables db rest"
    by auto
  then obtain zs where zs: "rest = zs @ bad # post"
    using inv by (auto simp: blocked_inv_def suffix_def)
  have "enqueued s @ planned e ((db # zs) @ bad # post) = planned e (pre @ bad # post)"
    using load pcs sel zs by (simp add: loading_inv_def del: planned_simps)
  then have "prefix (enqueued s) (planned e pre)"
    by (rule planned_cancel)
  then show ?thesis
    using pcs inv by (auto simp: blocked_inv_def split: sum.splits)
next
  case (6 e' a' s')
  then show ?thesis
    using inv by (auto simp: blocked_inv_def)
qed (use inv in \<open>auto simp: blocked_inv_def\<close>)

lemma blocked_at_cong:
  assumes "enqueued s' = enqueued s"
  shows "blocked_at e pre blk s' p = blocked_at e pre blk s p"
  using assms by (cases p) simp_all

lemma blocked_inv_step:
  assumes sel: "selected e a = pre @ bad # post" and bad: "\<not> schema_ok e a bad"
    and load: "loading_inv e a s" and inv: "blocked_inv e pre (bad # post) s"
  shows "blocked_inv e pre (bad # post) (step e a ev s)"
proof (cases ev)
  case Supervisor
  then show ?thesis
    using inv blocked_inv_main [OF sel bad load inv] by (simp add: step_def)
next
  case Feeder
  then show ?thesis
    using inv blocked_at_cong [of "feeder_step s" s e pre "bad # post" "pc s"]
    by (simp add: step_def blocked_inv_def step_feeder_frame)
next
  case (Worker w)
  then show ?thesis
    using inv blocked_at_cong [of "worker_step e a w s" s e pre "bad # post" "pc s"]
    by (simp add: step_def blocked_inv_def step_worker_frame)
next
  case (Kill w)
  then show ?thesis
    using inv blocked_at_cong [of "kill_step w s" s e pre "bad # post" "pc s"]
    by (simp add: step_def blocked_inv_def step_kill_frame)
qed

lemma blocked_inv_run:
  assumes sel: "selected e a = pre @ bad # post" and bad: "\<not> schema_ok e a bad"
  shows "blocked_inv e pre (bad # post) (run e a evs)"
proof -
  have "loading_inv e a (exec e a init evs) \<and> blocked_inv e pre (bad # post) (exec e a init evs)"
    by (rule exec_invariant
        [where P = "\<lambda>s. loading_inv e a s \<and> blocked_inv e pre (bad # post) s"])
      (simp_all add: loading_inv_step blocked_inv_step [OF sel bad],
        simp add: loading_inv_def blocked_inv_def init_def)
  then show ?thesis
    by (simp add: run_def)
qed

text \<open>
  Claim C4. On every schedule, every job on the queue belongs to a database whose schema
  validation has run before and has succeeded. When the schema validation of a database
  \<open>bad\<close> fails, the jobs ever put are an initial part of the jobs of the databases listed
  before \<open>bad\<close>: no table of \<open>bad\<close> or of a database listed after it is put (the database
  names being pairwise different). The supervisor never reaches the loop that waits for the
  queue; the run can only end with exit code 1, and it has ended once the supervisor has
  taken \<open>loading_bound\<close> actions.
\<close>

theorem schema_failure_blocks_enqueueing:
  assumes "s = run e a evs"
  shows "(\<forall>(db, t)\<in>set (enqueued s). (db, True) \<in> set (schema_runs s) \<and> schema_ok e a db)
    \<and> (startup e a = Inr (pre @ bad # post) \<and> \<not> schema_ok e a bad \<longrightarrow>
          prefix (enqueued s) (planned e pre)
          \<and> (distinct (pre @ bad # post) \<longrightarrow>
                (\<forall>(db, t)\<in>set (enqueued s). db \<notin> set (bad # post)))
          \<and> \<not> draining (pc s)
          \<and> (halted (pc s) \<longrightarrow> exit_code (pc s) = Some 1)
          \<and> (loading_bound e a \<le> count_list evs Supervisor \<longrightarrow>
                halted (pc s) \<and> exit_code (pc s) = Some 1))"
proof -
  have validated: "(db, True) \<in> set (schema_runs s) \<and> schema_ok e a db"
    if "(db, t) \<in> set (enqueued s)" for db t
  proof -
    have "(db, True) \<in> set (schema_runs s)"
      using schema_inv_run [of e a evs] assms that by (auto simp: schema_inv_def)
    moreover from this have "schema_ok e a db"
      using schema_inv_run [of e a evs] assms by (auto simp: schema_inv_def)
    ultimately show ?thesis
      by simp
  qed
  have blocked: "prefix (enqueued s) (planned e pre)
      \<and> (distinct (pre @ bad # post) \<longrightarrow>
            (\<forall>(db, t)\<in>set (enqueued s). db \<notin> set (bad # post)))
      \<and> \<not> draining (pc s)
      \<and> (halted (pc s) \<longrightarrow> exit_code (pc s) = Some 1)
      \<and> (loading_bound e a \<le> count_list evs Supervisor \<longrightarrow>
            halted (pc s) \<and> exit_code (pc s) = Some 1)"
    if start: "startup e a = Inr (pre @ bad # post)" and bad: "\<not> schema_ok e a bad"
  proof -
    have sel: "selected e a = pre @ bad # post"
      using start by (simp add: selected_def)
    have inv: "blocked_at e pre (bad # post) s (pc s)"
      using blocked_inv_run [OF sel bad, of evs] assms by (simp add: blocked_inv_def)
    have not_draining: "\<not> draining (pc s)"
      using inv by (cases "pc s") auto
    have pre: "prefix (enqueued s) (planned e pre)"
    proof (cases "pc s")
      case (Fatal f)
      then show ?thesis
        using inv by simp
    next
      case Start
      then show ?thesis
        using loading_inv_run [of e a evs] assms by (simp add: loading_inv_def)
    next
      case (ForDbs rest)
      then obtain zs where "rest = zs @ bad # post"
        using inv by (auto simp: suffix_def)
      then have "enqueued s @ planned e (zs @ bad # post) = planned e (pre @ bad # post)"
        using loading_inv_run [of e a evs] assms ForDbs sel
        by (simp add: loading_inv_def del: planned_simps)
      then show ?thesis
        by (rule planned_cancel)
    next
      case (AddTables db rest)
      then obtain zs where "rest = zs @ bad # post"
        using inv by (auto simp: suffix_def)
      then have "enqueued s @ planned e ((db # zs) @ bad # post) = planned e (pre @ bad # post)"
        using loading_inv_run [of e a evs] assms AddTables sel
        by (simp add: loading_inv_def del: planned_simps)
      then show ?thesis
        by (rule planned_cancel)
    next
      case (Put db n ts rest)
      then obtain zs where "rest = zs @ bad # post"
        using inv by (auto simp: suffix_def)
      then have "(enqueued s @ map (Pair db) ts) @ planned e (zs @ bad # post)
          = planned e (pre @ bad # post)"
        using loading_inv_run [of e a evs] assms Put sel
        by (simp add: loading_inv_def)
      then have "prefix (enqueued s @ map (Pair db) ts) (planned e pre)"
        by (rule planned_cancel)
      then show ?thesis
        by (rule append_prefixD)
    qed (use not_draining in auto)
    have apart: "db \<notin> set (bad # post)"
      if "distinct (pre @ bad # post)" and "(db, t) \<in> set (enqueued s)" for db t
    proof -
      have "(db, t) \<in> set (planned e pre)"
        using pre that(2) by (auto simp: prefix_def)
      then have "db \<in> set pre"
        by (rule planned_dbs)
      then show ?thesis
        using that(1) by auto
    qed
    have halt: "exit_code (pc s) = Some 1" if "halted (pc s)"
      using that not_draining by (cases "pc s") (auto simp: halted_def)
    have ends: "halted (pc s)" if "loading_bound e a \<le> count_list evs Supervisor"
      using loading_ends [OF that] assms not_draining by (auto simp: halted_def)
    show ?thesis
      using pre apart not_draining halt ends by auto
  qed
  show ?thesis
    using validated blocked by blast
qed

theorem schema_failure_blocks_enqueueing_witness:
  "startup (example_env (schema_fails_on ''db2'' (example_args 2 None))) (example_args 2 None)
     = Inr ([''db1''] @ ''db2'' # [])
   \<and> \<not> schema_ok (example_env (schema_fails_on ''db2'' (example_args 2 None)))
         (example_args 2 None) ''db2''
   \<and> enqueued (run (example_env (schema_fails_on ''db2'' (example_args 2 None)))
        (example_args 2 None)
        [Supervisor, Supervisor, Supervisor, Supervisor, Worker 0, Supervisor, Supervisor,
         Supervisor, Supervisor, Supervisor, Supervisor, Supervisor])
       = [(''db1'', ''public.a''), (''db1'', ''public.b'')]
   \<and> exit_code (pc (run (example_env (schema_fails_on ''db2'' (example_args 2 None)))
        (example_args 2 None)
        [Supervisor, Supervisor, Supervisor, Supervisor, Worker 0, Supervisor, Supervisor,
         Supervisor, Supervisor, Supervisor, Supervisor, Supervisor])) = Some 1"
proof -
  let ?a = "example_args 2 None"
  let ?e = "example_env (schema_fails_on ''db2'' ?a)"
  let ?evs = "[Supervisor, Supervisor, Supervisor, Supervisor, Worker 0, Supervisor, Supervisor,
         Supervisor, Supervisor, Supervisor, Supervisor, Supervisor]"
  have start: "startup ?e ?a = Inr ([''db1''] @ ''db2'' # [])"
    by (simp add: startup_def check_bindir_def select_dbs_def example_env_simps
        example_args_simps)
  have bad: "\<not> schema_ok ?e ?a ''db2''"
    by (simp add: schema_ok_def example_env_simps schema_fails_on_def fails_on_def)
  have enq: "enqueued (run ?e ?a ?evs) = [(''db1'', ''public.a''), (''db1'', ''public.b'')]"
    by (simp add: eval_run schema_fails_on_def schema_cmd_def)
  have bound: "loading_bound ?e ?a \<le> count_list ?evs Supervisor"
    using start
    by (simp add: loading_bound_def selected_def tables_of_def example_env_simps)
  show ?thesis
    using schema_failure_blocks_enqueueing [OF refl, of ?e ?a ?evs "[''db1'']" "''db2''" "[]"]
      start bad enq bound
    by simp
qed

section \<open>The check of the bindir\<close>















section \<open>An empty pipe while jobs are still in the buffer\<close>

text \<open>
  Claim C2 (not met by the code). Two workers, three tables, every dump succeeds and no
  worker is killed. In the first run the supervisor puts the three jobs and tests the queue
  before the feeder thread has written any of them to the pipe: \<open>queue.empty()\<close> is true,
  the supervisor leaves its loop and returns with exit code 0, and none of the three jobs
  was taken by a worker. In the second run the feeder thread has written two jobs, the
  workers have taken and dumped them, and the supervisor tests the queue while the third
  job is still in the buffer: the run ends with exit code 0 and the third job is never
  taken.
\<close>

theorem empty_pipe_ends_run_with_jobs_in_buffer:
  "1 \<le> jobs (example_args 2 None)
   \<and> \<not> hard_failure (example_env ok_shell) (example_args 2 None) (''db1'', ''public.a'')
   \<and> \<not> hard_failure (example_env ok_shell) (example_args 2 None) (''db1'', ''public.b'')
   \<and> \<not> hard_failure (example_env ok_shell) (example_args 2 None) (''db2'', ''public.c'')
   \<and> pc (run (example_env ok_shell) (example_args 2 None)
        [Supervisor, Supervisor, Supervisor, Supervisor, Supervisor, Supervisor, Supervisor,
         Supervisor, Supervisor, Supervisor, Supervisor, Supervisor]) = Done
   \<and> exit_code (pc (run (example_env ok_shell) (example_args 2 None)
        [Supervisor, Supervisor, Supervisor, Supervisor, Supervisor, Supervisor, Supervisor,
         Supervisor, Supervisor, Supervisor, Supervisor, Supervisor])) = Some 0
   \<and> enqueued (run (example_env ok_shell) (example_args 2 None)
        [Supervisor, Supervisor, Supervisor, Supervisor, Supervisor, Supervisor, Supervisor,
         Supervisor, Supervisor, Supervisor, Supervisor, Supervisor])
       = [(''db1'', ''public.a''), (''db1'', ''public.b''), (''db2'', ''public.c'')]
   \<and> dequeued (run (example_env ok_shell) (example_args 2 None)
        [Supervisor, Supervisor, Supervisor, Supervisor, Supervisor, Supervisor, Supervisor,
         Supervisor, Supervisor, Supervisor, Supervisor, Supervisor]) = []
   \<and> workers (run (example_env ok_shell) (example_args 2 None)
        [Supervisor, Supervisor, Supervisor, Supervisor, Supervisor, Supervisor, Supervisor,
         Supervisor, Supervisor, Supervisor, Supervisor, Supervisor]) = [Idle, Idle]
   \<and> pc (run (example_env ok_shell) (example_args 2 None)
        [Supervisor, Supervisor, Supervisor, Supervisor, Supervisor, Supervisor, Supervisor,
         Supervisor, Supervisor, Supervisor, Supervisor, Feeder, Feeder,
         Worker 0, Worker 1, Worker 0, Worker 1, Supervisor]) = Done
   \<and> map snd (dequeued (run (example_env ok_shell) (example_args 2 None)
        [Supervisor, Supervisor, Supervisor, Supervisor, Supervisor, Supervisor, Supervisor,
         Supervisor, Supervisor, Supervisor, Supervisor, Feeder, Feeder,
         Worker 0, Worker 1, Worker 0, Worker 1, Supervisor]))
       = [(''db1'', ''public.a''), (''db1'', ''public.b'')]
   \<and> buffer (run (example_env ok_shell) (example_args 2 None)
        [Supervisor, Supervisor, Supervisor, Supervisor, Supervisor, Supervisor, Supervisor,
         Supervisor, Supervisor, Supervisor, Supervisor, Feeder, Feeder,
         Worker 0, Worker 1, Worker 0, Worker 1, Supervisor]) = [(''db2'', ''public.c'')]
   \<and> workers (run (example_env ok_shell) (example_args 2 None)
        [Supervisor, Supervisor, Supervisor, Supervisor, Supervisor, Supervisor, Supervisor,
         Supervisor, Supervisor, Supervisor, Supervisor, Feeder, Feeder,
         Worker 0, Worker 1, Worker 0, Worker 1, Supervisor]) = [Idle, Idle]"
  by (simp add: eval_run hard_failure_def ok_shell_def classify_def)

end
